theory Spec2Isabelle
  imports Complex_Main "HOL-Library.Char_ord" "HOL-Library.List_Lexorder"
begin

section \<open>Python strings and numbers, as far as create\_spritesheets.py uses them\<close>

text \<open>
  Strings are lists of characters; the development covers ASCII text, where a character is
  one byte and Python's \<^verbatim>\<open>str.isspace\<close>, \<^verbatim>\<open>str.isdigit\<close>, \<^verbatim>\<open>\s\<close> and
  \<^verbatim>\<open>\d\<close> are the predicates below (outside ASCII, \<^verbatim>\<open>str.isdigit\<close> accepts
  characters that \<^verbatim>\<open>\d\<close> and \<^verbatim>\<open>int\<close> do not). Python compares strings by code
  point, which is the order of \<^typ>\<open>char list\<close> here. Integers are unbounded, as
  Python's are.
\<close>

definition isdigit :: "char \<Rightarrow> bool" where
  "isdigit c = (c \<in> set ''0123456789'')"

text \<open>\<^verbatim>\<open>str.isspace\<close> and \<^verbatim>\<open>\s\<close> on ASCII: tab, LF, VT, FF, CR, the four
  separators 0x1C..0x1F, and the space.\<close>

definition isspace :: "char \<Rightarrow> bool" where
  "isspace c = (c \<in> set [CHR 0x09, CHR 0x0A, CHR 0x0B, CHR 0x0C, CHR 0x0D,
                          CHR 0x1C, CHR 0x1D, CHR 0x1E, CHR 0x1F, CHR 0x20])"

text \<open>The character class \<^verbatim>\<open>[a-z]\<close>.\<close>

definition islower_az :: "char \<Rightarrow> bool" where
  "islower_az c = (c \<in> set ''abcdefghijklmnopqrstuvwxyz'')"

text \<open>The regular expression \<^verbatim>\<open>.\<close> (without DOTALL): any character but the newline.\<close>

definition not_newline :: "char \<Rightarrow> bool" where
  "not_newline c = (c \<noteq> CHR 0x0A)"

definition is_dot :: "char \<Rightarrow> bool" where
  "is_dot c = (c = CHR ''.'')"

text \<open>\<^verbatim>\<open>ord(c)\<close>.\<close>

definition py_ord :: "char \<Rightarrow> int" where
  "py_ord c = of_char c"

text \<open>\<^verbatim>\<open>s.strip()\<close>: leading and trailing whitespace removed.\<close>

definition strip :: "string \<Rightarrow> string" where
  "strip s = rev (dropWhile isspace (rev (dropWhile isspace s)))"

text \<open>\<^verbatim>\<open>s.lower()\<close> on ASCII.\<close>

definition lower_char :: "char \<Rightarrow> char" where
  "lower_char c =
     (case map_of (zip ''ABCDEFGHIJKLMNOPQRSTUVWXYZ'' ''abcdefghijklmnopqrstuvwxyz'') c of
        Some l \<Rightarrow> l
      | None \<Rightarrow> c)"

definition lower :: "string \<Rightarrow> string" where
  "lower s = map lower_char s"

text \<open>\<^verbatim>\<open>s.isdigit()\<close> of a string: non-empty and all digits.\<close>

definition str_isdigit :: "string \<Rightarrow> bool" where
  "str_isdigit s = (s \<noteq> [] \<and> list_all isdigit s)"

text \<open>\<^verbatim>\<open>s.endswith(suffix)\<close>.\<close>

definition endswith :: "string \<Rightarrow> string \<Rightarrow> bool" where
  "endswith s suf = (length suf \<le> length s \<and> drop (length s - length suf) s = suf)"

text \<open>\<^verbatim>\<open>int(s)\<close> of a string of decimal digits (the only strings the program passes
  to it). The interpreter's optional limit on the number of digits of a converted string
  (4300 by default in recent versions) is not modelled.\<close>

definition digit_val :: "char \<Rightarrow> int" where
  "digit_val c = of_char c - 48"

definition py_int :: "string \<Rightarrow> int" where
  "py_int ds = foldl (\<lambda>a c. 10 * a + digit_val c) 0 ds"

text \<open>\<^verbatim>\<open>str(n)\<close>, as the f-strings format an integer: decimal, a minus sign when negative.\<close>

fun str_nat :: "nat \<Rightarrow> string" where
  "str_nat n =
     (if n < 10 then [''0123456789'' ! n]
      else str_nat (n div 10) @ [''0123456789'' ! (n mod 10)])"

declare str_nat.simps [simp del]

definition str_int :: "int \<Rightarrow> string" where
  "str_int i = (if i < 0 then CHR ''-'' # str_nat (nat (- i)) else str_nat (nat i))"

text \<open>\<^verbatim>\<open>sep.join(xs)\<close>.\<close>

fun join :: "string \<Rightarrow> string list \<Rightarrow> string" where
  "join sep [] = []"
| "join sep [x] = x"
| "join sep (x # y # ys) = x @ sep @ join sep (y # ys)"

section \<open>The regular expressions of the program\<close>

text \<open>
  Every pattern of the program is a sequence of character classes, each taken once,
  optionally (\<^verbatim>\<open>?\<close>) or one or more times (\<^verbatim>\<open>+\<close>), anchored at the start of the
  line by \<^verbatim>\<open>re.match\<close> and, for two of them, closed by \<^verbatim>\<open>$\<close>. \<open>re_items\<close> is the
  backtracking matcher for such sequences: quantifiers are greedy, the first successful
  alternative wins, and the result lists the text each item matched (a group of the
  pattern is an entry of that list). \<^verbatim>\<open>$\<close> (without MULTILINE) holds at the end of the
  string and just before a newline that ends the string.
\<close>

datatype quant = One | Opt | Plus

type_synonym re_item = "(char \<Rightarrow> bool) \<times> quant"

definition at_dollar :: "string \<Rightarrow> bool" where
  "at_dollar s = (s = [] \<or> s = [CHR 0x0A])"

fun re_items :: "bool \<Rightarrow> re_item list \<Rightarrow> string \<Rightarrow> string list option" where
  "re_items dollar [] s = (if dollar then (if at_dollar s then Some [] else None) else Some [])"
| "re_items dollar ((c, One) # items) s =
     (case s of
        [] \<Rightarrow> None
      | x # xs \<Rightarrow> if c x then map_option ((#) [x]) (re_items dollar items xs) else None)"
| "re_items dollar ((c, Opt) # items) s =
     (case s of
        [] \<Rightarrow> map_option ((#) []) (re_items dollar items s)
      | x # xs \<Rightarrow>
          if c x then
            (case re_items dollar items xs of
               Some r \<Rightarrow> Some ([x] # r)
             | None \<Rightarrow> map_option ((#) []) (re_items dollar items s))
          else map_option ((#) []) (re_items dollar items s))"
| "re_items dollar ((c, Plus) # items) s =
     (case s of
        [] \<Rightarrow> None
      | x # xs \<Rightarrow>
          if c x then
            (case re_items dollar ((c, Plus) # items) xs of
               Some (g # r) \<Rightarrow> Some ((x # g) # r)
             | _ \<Rightarrow> map_option ((#) [x]) (re_items dollar items xs))
          else None)"

text \<open>Line 181: \<^verbatim>\<open>r'^\d+\.[a-z]'\<close>.\<close>

definition re_row_col :: "re_item list" where
  "re_row_col = [(isdigit, Plus), (is_dot, One), (islower_az, One)]"

text \<open>Line 182: \<^verbatim>\<open>r'^\d+\.\s'\<close>.\<close>

definition re_row_num :: "re_item list" where
  "re_row_num = [(isdigit, Plus), (is_dot, One), (isspace, One)]"

text \<open>Line 187: \<^verbatim>\<open>r'^(\d+)\.([a-z])\.?\s+(.+)$'\<close>; the groups are items 0, 2 and 5.\<close>

definition re_grid_ref :: "re_item list" where
  "re_grid_ref = [(isdigit, Plus), (is_dot, One), (islower_az, One), (is_dot, Opt),
                  (isspace, Plus), (not_newline, Plus)]"

text \<open>Line 199: \<^verbatim>\<open>r'^(\d+)\.\s+(.+)$'\<close>; the groups are items 0 and 3.\<close>

definition re_row_label :: "re_item list" where
  "re_row_label = [(isdigit, Plus), (is_dot, One), (isspace, Plus), (not_newline, Plus)]"

section \<open>natural\_sort\_key and sorted (lines 10--12, 27--30, 90, 94)\<close>

text \<open>
  \<^verbatim>\<open>re.split(r'(\d+)', s)\<close>: the text before the first run of digits, that run, the text
  up to the next run, and so on; the list always starts and ends with a (possibly empty)
  piece of text.
\<close>

function re_split_digits :: "string \<Rightarrow> string list" where
  "re_split_digits s =
     (if dropWhile (\<lambda>c. \<not> isdigit c) s = [] then [takeWhile (\<lambda>c. \<not> isdigit c) s]
      else takeWhile (\<lambda>c. \<not> isdigit c) s
           # takeWhile isdigit (dropWhile (\<lambda>c. \<not> isdigit c) s)
           # re_split_digits (dropWhile isdigit (dropWhile (\<lambda>c. \<not> isdigit c) s)))"
  by pat_completeness auto

termination
proof (relation "measure length")
  show "wf (measure length)" by simp
next
  fix s :: string
  assume ne: "dropWhile (\<lambda>c. \<not> isdigit c) s \<noteq> []"
  then obtain x xs where r: "dropWhile (\<lambda>c. \<not> isdigit c) s = x # xs"
    by (cases "dropWhile (\<lambda>c. \<not> isdigit c) s") auto
  have "isdigit x" using hd_dropWhile [OF ne] r by simp
  then have "length (dropWhile isdigit (x # xs)) \<le> length xs"
    by (simp add: length_dropWhile_le)
  moreover have "length (x # xs) \<le> length s"
    using length_dropWhile_le [of "\<lambda>c. \<not> isdigit c" s] r by simp
  ultimately show "(dropWhile isdigit (dropWhile (\<lambda>c. \<not> isdigit c) s), s) \<in> measure length"
    using r by simp
qed

declare re_split_digits.simps [simp del]

text \<open>The elements of a key: \<^verbatim>\<open>int(c) if c.isdigit() else c.lower()\<close>.\<close>

datatype key_part = KInt int | KStr string

definition natural_sort_key :: "string \<Rightarrow> key_part list" where
  "natural_sort_key s =
     map (\<lambda>c. if str_isdigit c then KInt (py_int c) else KStr (lower c)) (re_split_digits s)"

text \<open>
  Python compares two lists at the first index where the elements are not equal, with
  \<^verbatim>\<open><\<close> of the elements there, and by length when one list is a prefix of the other.
  \<^verbatim>\<open><\<close> between an integer and a string raises TypeError.
\<close>

datatype py_error = TypeError

fun part_lt :: "key_part \<Rightarrow> key_part \<Rightarrow> py_error + bool" where
  "part_lt (KInt a) (KInt b) = Inr (a < b)"
| "part_lt (KStr a) (KStr b) = Inr (a < b)"
| "part_lt (KInt a) (KStr b) = Inl TypeError"
| "part_lt (KStr a) (KInt b) = Inl TypeError"

fun key_lt :: "key_part list \<Rightarrow> key_part list \<Rightarrow> py_error + bool" where
  "key_lt [] [] = Inr False"
| "key_lt [] (y # ys) = Inr True"
| "key_lt (x # xs) [] = Inr False"
| "key_lt (x # xs) (y # ys) = (if x = y then key_lt xs ys else part_lt x y)"

text \<open>
  \<^verbatim>\<open>sorted(xs, key=f)\<close> is a stable sort that compares keys with \<^verbatim>\<open><\<close> only. It is
  modelled by the stable insertion sort: an element goes before the first later element
  whose key is not smaller than its own. A comparison that raises ends the sort.
\<close>

fun insort_by_key :: "('a \<Rightarrow> key_part list) \<Rightarrow> 'a \<Rightarrow> 'a list \<Rightarrow> py_error + 'a list" where
  "insort_by_key f x [] = Inr [x]"
| "insort_by_key f x (y # ys) =
     (case key_lt (f y) (f x) of
        Inl e \<Rightarrow> Inl e
      | Inr True \<Rightarrow> (case insort_by_key f x ys of Inl e \<Rightarrow> Inl e | Inr zs \<Rightarrow> Inr (y # zs))
      | Inr False \<Rightarrow> Inr (x # y # ys))"

fun sorted_by_key :: "('a \<Rightarrow> key_part list) \<Rightarrow> 'a list \<Rightarrow> py_error + 'a list" where
  "sorted_by_key f [] = Inr []"
| "sorted_by_key f (x # xs) =
     (case sorted_by_key f xs of Inl e \<Rightarrow> Inl e | Inr ys \<Rightarrow> insort_by_key f x ys)"


section \<open>Atlas records and the atlas file\<close>

text \<open>
  A record is \<open>(name, x, y, w, h)\<close>; the program computes the five values and formats them
  at once into a line \<^verbatim>\<open>f"{name}\t{x}\t{y}\t{w}\t{h}"\<close>.
\<close>

type_synonym atlas_entry = "string \<times> int \<times> int \<times> int \<times> int"

definition atlas_line :: "atlas_entry \<Rightarrow> string" where
  "atlas_line e =
     (case e of (name, x, y, w, h) \<Rightarrow>
        name @ [CHR 0x09] @ str_int x @ [CHR 0x09] @ str_int y @ [CHR 0x09] @ str_int w
        @ [CHR 0x09] @ str_int h)"

text \<open>The five header lines every atlas file starts with (lines 72--76, 132--136,
  232--236); the last one holds the two characters backslash and t four times.\<close>

definition atlas_header :: "string \<Rightarrow> nat \<Rightarrow> nat \<Rightarrow> nat \<Rightarrow> nat \<Rightarrow> nat \<Rightarrow> string" where
  "atlas_header png_name count sheet_w sheet_h w h =
     ''# Sprite Sheet Atlas: '' @ png_name @ [CHR 0x0A]
     @ ''# Total sprites: '' @ str_nat count @ [CHR 0x0A]
     @ ''# Sheet size: '' @ str_nat sheet_w @ ''x'' @ str_nat sheet_h @ [CHR 0x0A]
     @ ''# Icon size: '' @ str_nat w @ ''x'' @ str_nat h @ [CHR 0x0A]
     @ ''# Format: name'' @ [CHR 0x5C] @ ''tx'' @ [CHR 0x5C] @ ''ty'' @ [CHR 0x5C]
     @ ''twidth'' @ [CHR 0x5C] @ ''theight'' @ [CHR 0x0A]"

text \<open>What one call writes: the size of the sheet image, the records in the order of
  their lines, and the text of the atlas file.\<close>

record sheet_output =
  out_sheet_w :: nat
  out_sheet_h :: nat
  out_entries :: "atlas_entry list"
  out_atlas :: string

definition write_atlas :: "string \<Rightarrow> nat \<Rightarrow> nat \<Rightarrow> nat \<Rightarrow> nat \<Rightarrow> nat \<Rightarrow> atlas_entry list \<Rightarrow> string" where
  "write_atlas png_name count sheet_w sheet_h w h entries =
     atlas_header png_name count sheet_w sheet_h w h
     @ join [CHR 0x0A] (map atlas_line entries) @ [CHR 0x0A]"

section \<open>generate\_32rogues\_atlas (lines 143--239)\<close>

text \<open>The three conventions of a label file. The program has no such type: it is the
  branch of the \<^verbatim>\<open>if\<close>/\<^verbatim>\<open>elif\<close>/\<^verbatim>\<open>else\<close> of lines 184--222 that is taken.\<close>

datatype label_format = GridRef | RowLabel | PlainLabel

text \<open>Line 176: \<^verbatim>\<open>[l.strip() for l in f if l.strip()]\<close>, over the lines of the file.\<close>

definition all_lines_of :: "string list \<Rightarrow> string list" where
  "all_lines_of f = map strip (filter (\<lambda>l. strip l \<noteq> []) f)"

text \<open>Lines 181 and 182.\<close>

definition has_row_col :: "string list \<Rightarrow> bool" where
  "has_row_col all_lines = list_ex (\<lambda>l. re_items False re_row_col l \<noteq> None) all_lines"

definition has_row_num :: "string list \<Rightarrow> bool" where
  "has_row_num all_lines = list_ex (\<lambda>l. re_items False re_row_num l \<noteq> None) all_lines"

definition detect_format :: "string list \<Rightarrow> label_format" where
  "detect_format all_lines =
     (if has_row_col all_lines then GridRef
      else if has_row_num all_lines then RowLabel
      else PlainLabel)"

text \<open>Lines 186--194, the loop body for one line. \<open>ts\<close> is the local \<^verbatim>\<open>tile_size\<close>.\<close>

definition grid_ref_line :: "nat \<Rightarrow> string \<Rightarrow> atlas_entry list" where
  "grid_ref_line ts line =
     (case re_items True re_grid_ref line of
        Some [g1, d1, [c], d2, ws, g3] \<Rightarrow>
          (let row_num = py_int g1 - 1;
               col_num = py_ord c - py_ord CHR ''a'';
               name = strip g3;
               x = col_num * int ts;
               y = row_num * int ts
           in [(name, x, y, int ts, int ts)])
      | _ \<Rightarrow> [])"

definition grid_ref_records :: "nat \<Rightarrow> string list \<Rightarrow> atlas_entry list" where
  "grid_ref_records ts all_lines = concat (map (grid_ref_line ts) all_lines)"

text \<open>Lines 198--207.\<close>

definition row_label_line :: "nat \<Rightarrow> nat \<Rightarrow> string \<Rightarrow> atlas_entry list" where
  "row_label_line ts cols line =
     (case re_items True re_row_label line of
        Some [g1, d1, ws, g2] \<Rightarrow>
          (let row_num = py_int g1 - 1;
               name = strip g2
           in map (\<lambda>col_num.
                     (name @ '' [frame '' @ str_nat col_num @ '']'',
                      int col_num * int ts, row_num * int ts, int ts, int ts))
                  [0..<cols])
      | _ \<Rightarrow> [])"

definition row_label_records :: "nat \<Rightarrow> nat \<Rightarrow> string list \<Rightarrow> atlas_entry list" where
  "row_label_records ts cols all_lines = concat (map (row_label_line ts cols) all_lines)"

text \<open>Lines 214--222: the loop over the lines, with \<^verbatim>\<open>current_row\<close> passed along.\<close>

fun plain_label_loop :: "nat \<Rightarrow> nat \<Rightarrow> nat \<Rightarrow> nat \<Rightarrow> string list \<Rightarrow> atlas_entry list" where
  "plain_label_loop ts cols rows_per_group current_row [] = []"
| "plain_label_loop ts cols rows_per_group current_row (line # rest) =
     concat (map (\<lambda>r. map (\<lambda>c.
                 (strip line @ '' [row '' @ str_nat r @ '', col '' @ str_nat c @ '']'',
                  int c * int ts, (int current_row + int r) * int ts, int ts, int ts))
               [0..<cols])
             [0..<rows_per_group])
     @ plain_label_loop ts cols rows_per_group (current_row + rows_per_group) rest"

text \<open>Lines 211--213.\<close>

definition plain_label_records :: "nat \<Rightarrow> nat \<Rightarrow> nat \<Rightarrow> string list \<Rightarrow> atlas_entry list" where
  "plain_label_records ts cols rows all_lines =
     (let label_count = length all_lines;
          rows_per_group = rows div max 1 label_count
      in plain_label_loop ts cols rows_per_group 0 all_lines)"

text \<open>Lines 184--222.\<close>

definition legacy_records :: "nat \<Rightarrow> nat \<Rightarrow> nat \<Rightarrow> string list \<Rightarrow> atlas_entry list" where
  "legacy_records ts cols rows all_lines =
     (if has_row_col all_lines then grid_ref_records ts all_lines
      else if has_row_num all_lines then row_label_records ts cols all_lines
      else plain_label_records ts cols rows all_lines)"

text \<open>
  Lines 160--239, the body of the loop for one sheet. \<open>png\<close> is the size of the image
  when the image file exists, \<open>txt\<close> the lines of the label file when it exists. The
  result is \<open>None\<close> when the sheet is skipped (\<^verbatim>\<open>continue\<close>, line 165), and otherwise
  what is written: the copied image and the atlas. \<open>ts\<close> stands for the local
  \<^verbatim>\<open>tile_size\<close>, which the source sets to 32 (\<open>tile_size\<close> below); the body is read for
  any positive value of it.
\<close>

definition generate_sheet_atlas ::
  "nat \<Rightarrow> string \<Rightarrow> (nat \<times> nat) option \<Rightarrow> string list option \<Rightarrow> sheet_output option" where
  "generate_sheet_atlas ts sheet_name png txt =
     (case png of
        None \<Rightarrow> None
      | Some (sheet_w, sheet_h) \<Rightarrow>
          (case txt of
             None \<Rightarrow> None
           | Some f \<Rightarrow>
               (let cols = sheet_w div ts;
                    rows = sheet_h div ts;
                    all_lines = all_lines_of f;
                    entries = legacy_records ts cols rows all_lines
                in Some \<lparr>out_sheet_w = sheet_w, out_sheet_h = sheet_h, out_entries = entries,
                         out_atlas = write_atlas (''32rogues-'' @ sheet_name @ ''.png'')
                                       (length entries) sheet_w sheet_h ts ts entries\<rparr>)))"

text \<open>Lines 148--159: the tile size and the seven sheets; the directory is given by the
  sizes of its images and the lines of its text files, by file name.\<close>

definition tile_size :: nat where
  "tile_size = 32"

definition sheets :: "(string \<times> string \<times> string) list" where
  "sheets =
     [(''items'', ''items.png'', ''items.txt''),
      (''monsters'', ''monsters.png'', ''monsters.txt''),
      (''animals'', ''animals.png'', ''animals.txt''),
      (''rogues'', ''rogues.png'', ''rogues.txt''),
      (''tiles'', ''tiles.png'', ''tiles.txt''),
      (''animated-tiles'', ''animated-tiles.png'', ''animated-tiles.txt''),
      (''autotiles'', ''autotiles.png'', ''autotiles.txt'')]"

definition generate_32rogues_atlas ::
  "(string \<Rightarrow> (nat \<times> nat) option) \<Rightarrow> (string \<Rightarrow> string list option)
   \<Rightarrow> (string \<times> sheet_output option) list" where
  "generate_32rogues_atlas images texts =
     map (\<lambda>(sheet_name, png_file, txt_file).
            (sheet_name, generate_sheet_atlas tile_size sheet_name (images png_file) (texts txt_file)))
         sheets"

section \<open>The packer (lines 15--140)\<close>

text \<open>
  \<^verbatim>\<open>math.ceil(math.sqrt(count))\<close> and \<^verbatim>\<open>math.ceil(count / cols)\<close>. Python computes both
  in double precision; they are taken here as the exact real operations, with which they
  agree for every count below \<open>2^52\<close> (a square root or quotient that is not an integer
  then differs from the nearest integer by more than the rounding error).
\<close>

definition grid_cols :: "nat \<Rightarrow> nat" where
  "grid_cols count = nat \<lceil>sqrt (real count)\<rceil>"

definition grid_rows :: "nat \<Rightarrow> nat \<Rightarrow> nat" where
  "grid_rows count cols = nat \<lceil>real count / real cols\<rceil>"

text \<open>\<^verbatim>\<open>p.rfind(c)\<close> for one character, \<^verbatim>\<open>os.path.basename\<close> and the first component
  of \<^verbatim>\<open>os.path.splitext\<close> (POSIX): the extension starts at the last dot of the last
  path component, unless only dots precede it there.\<close>

definition rfind :: "char \<Rightarrow> string \<Rightarrow> int" where
  "rfind c p =
     (case filter (\<lambda>i. p ! i = c) (rev [0..<length p]) of [] \<Rightarrow> - 1 | i # _ \<Rightarrow> int i)"

definition basename :: "string \<Rightarrow> string" where
  "basename p = drop (nat (rfind CHR ''/'' p + 1)) p"

definition splitext_root :: "string \<Rightarrow> string" where
  "splitext_root p =
     (let sepIndex = rfind CHR ''/'' p;
          dotIndex = rfind CHR ''.'' p
      in if dotIndex > sepIndex
            \<and> list_ex (\<lambda>i. p ! i \<noteq> CHR ''.'') [nat (sepIndex + 1)..<nat dotIndex]
         then take (nat dotIndex) p
         else p)"

text \<open>Lines 36--77 and 103--137, which are the same text: the grid, the slot of every
  collected name by its index, and the files written.\<close>

definition pack_sheet :: "string \<Rightarrow> nat \<times> nat \<Rightarrow> string list \<Rightarrow> sheet_output" where
  "pack_sheet output_png icon_size names =
     (let count = length names;
          cols = grid_cols count;
          rows = grid_rows count cols;
          w = fst icon_size;
          h = snd icon_size;
          sheet_w = cols * w;
          sheet_h = rows * h;
          entries = map (\<lambda>(idx, name).
                           (let col = idx mod cols;
                                row = idx div cols;
                                x = col * w;
                                y = row * h
                            in (name, int x, int y, int w, int h)))
                        (enumerate 0 names)
      in \<lparr>out_sheet_w = sheet_w, out_sheet_h = sheet_h, out_entries = entries,
          out_atlas = write_atlas (basename output_png) count sheet_w sheet_h w h entries\<rparr>)"

text \<open>Lines 62--65: the name of an icon, by \<^verbatim>\<open>name_fn\<close> when one is given.\<close>

definition icon_name :: "(string \<Rightarrow> string) option \<Rightarrow> string \<Rightarrow> string" where
  "icon_name name_fn fname =
     (case name_fn of Some g \<Rightarrow> g fname | None \<Rightarrow> splitext_root fname)"

text \<open>
  Lines 15--80. \<open>listing\<close> is \<^verbatim>\<open>os.listdir(icon_dir)\<close>. The result is \<open>Inl\<close> when the sort
  raises, \<open>Inr None\<close> when the function returns at line 34 without writing, and otherwise
  what it writes.
\<close>

definition create_spritesheet_from_dir ::
  "string list \<Rightarrow> string \<Rightarrow> nat \<times> nat \<Rightarrow> (string \<Rightarrow> string) option
   \<Rightarrow> py_error + sheet_output option" where
  "create_spritesheet_from_dir listing output_png icon_size name_fn =
     (case sorted_by_key natural_sort_key (filter (\<lambda>f. endswith (lower f) ''.png'') listing) of
        Inl e \<Rightarrow> Inl e
      | Inr files \<Rightarrow>
          if files = [] then Inr None
          else Inr (Some (pack_sheet output_png icon_size (map (icon_name name_fn) files))))"

text \<open>
  Lines 88--97: the names collected from the category folders. \<open>base\<close> is
  \<^verbatim>\<open>os.listdir(base_dir)\<close>, each name with its own listing when it is a directory.
  \<^verbatim>\<open>sorted\<close> without a key compares the names as strings.
\<close>

fun collect_categories :: "(string \<times> string list option) list \<Rightarrow> py_error + string list" where
  "collect_categories [] = Inr []"
| "collect_categories ((category, None) # rest) = collect_categories rest"
| "collect_categories ((category, Some listing) # rest) =
     (case sorted_by_key natural_sort_key listing of
        Inl e \<Rightarrow> Inl e
      | Inr fnames \<Rightarrow>
          (case collect_categories rest of
             Inl e \<Rightarrow> Inl e
           | Inr others \<Rightarrow>
               Inr (map (\<lambda>fname. category @ ''/'' @ splitext_root fname)
                        (filter (\<lambda>fname. endswith (lower fname) ''.png'') fnames)
                    @ others)))"

text \<open>Lines 83--140.\<close>

definition create_spritesheet_from_categorized_dirs ::
  "(string \<times> string list option) list \<Rightarrow> string \<Rightarrow> nat \<times> nat \<Rightarrow> py_error + sheet_output option" where
  "create_spritesheet_from_categorized_dirs base output_png icon_size =
     (case collect_categories (sort_key fst base) of
        Inl e \<Rightarrow> Inl e
      | Inr files_with_paths \<Rightarrow>
          if files_with_paths = [] then Inr None
          else Inr (Some (pack_sheet output_png icon_size files_with_paths)))"

section \<open>The canvas invariant\<close>

text \<open>A record lies within a canvas when \<open>x + w\<close> and \<open>y + h\<close> do not exceed its width
  and height; \<open>all_in_canvas\<close> checks every record of an output against the size of the
  sheet written with it.\<close>

definition entry_in_canvas :: "nat \<Rightarrow> nat \<Rightarrow> atlas_entry \<Rightarrow> bool" where
  "entry_in_canvas canvas_w canvas_h e =
     (case e of (name, x, y, w, h) \<Rightarrow> x + w \<le> int canvas_w \<and> y + h \<le> int canvas_h)"

definition all_in_canvas :: "sheet_output \<Rightarrow> bool" where
  "all_in_canvas out =
     list_all (entry_in_canvas (out_sheet_w out) (out_sheet_h out)) (out_entries out)"

section \<open>The shapes of label lines\<close>

text \<open>
  A line as the translator sees it (line 176): stripped, not empty, and, being one line of
  a text file, without a newline inside.
\<close>

definition clean_line :: "string \<Rightarrow> bool" where
  "clean_line l = (l \<noteq> [] \<and> \<not> isspace (hd l) \<and> \<not> isspace (last l) \<and> CHR 0x0A \<notin> set l)"

text \<open>
  The two shapes in words: digits, a dot, for a grid reference a lower-case letter and
  possibly one more dot, then whitespace, then the label text, which starts at the first
  character that is not whitespace.
\<close>

definition grid_ref_shape :: "string \<Rightarrow> string \<Rightarrow> char \<Rightarrow> string \<Rightarrow> bool" where
  "grid_ref_shape l ds c label =
     (\<exists>dot ws. l = ds @ ''.'' @ [c] @ dot @ ws @ label
        \<and> ds \<noteq> [] \<and> list_all isdigit ds \<and> islower_az c \<and> (dot = [] \<or> dot = ''.'')
        \<and> ws \<noteq> [] \<and> list_all isspace ws \<and> label \<noteq> [] \<and> \<not> isspace (hd label))"

definition row_label_shape :: "string \<Rightarrow> string \<Rightarrow> string \<Rightarrow> bool" where
  "row_label_shape l ds label =
     (\<exists>ws. l = ds @ ''.'' @ ws @ label
        \<and> ds \<noteq> [] \<and> list_all isdigit ds
        \<and> ws \<noteq> [] \<and> list_all isspace ws \<and> label \<noteq> [] \<and> \<not> isspace (hd label))"

text \<open>How a line begins: digits, a dot and a lower-case letter; digits, a dot and a
  whitespace character.\<close>

definition grid_ref_prefix :: "string \<Rightarrow> bool" where
  "grid_ref_prefix l =
     (\<exists>ds c rest. l = ds @ ''.'' @ [c] @ rest \<and> ds \<noteq> [] \<and> list_all isdigit ds \<and> islower_az c)"

definition row_label_prefix :: "string \<Rightarrow> bool" where
  "row_label_prefix l =
     (\<exists>ds c rest. l = ds @ ''.'' @ [c] @ rest \<and> ds \<noteq> [] \<and> list_all isdigit ds \<and> isspace c)"

section \<open>The shape of sort keys\<close>




section \<open>The grid of the packer\<close>

lemma grid_cols_pos: "0 < n \<Longrightarrow> 0 < grid_cols n"
  by (simp add: grid_cols_def)

lemma grid_cols_ge: "sqrt (real n) \<le> real (grid_cols n)"
proof -
  have "\<lceil>0::real\<rceil> \<le> \<lceil>sqrt (real n)\<rceil>" by (rule ceiling_mono) simp
  then have "0 \<le> \<lceil>sqrt (real n)\<rceil>" by simp
  then have "real (grid_cols n) = of_int \<lceil>sqrt (real n)\<rceil>"
    by (simp add: grid_cols_def)
  then show ?thesis by (simp add: le_of_int_ceiling)
qed

lemma grid_cols_least: "sqrt (real n) \<le> real c \<Longrightarrow> grid_cols n \<le> c"
proof -
  assume "sqrt (real n) \<le> real c"
  then show ?thesis by (simp add: grid_cols_def)
qed

lemma grid_rows_ge:
  assumes "0 < cols"
  shows "n \<le> cols * grid_rows n cols"
proof -
  have "real n / real cols \<le> of_int \<lceil>real n / real cols\<rceil>" by (rule le_of_int_ceiling)
  moreover have "0 \<le> \<lceil>real n / real cols\<rceil>"
    using ceiling_mono [of 0 "real n / real cols"] by simp
  ultimately have "real n / real cols \<le> real (grid_rows n cols)"
    by (simp add: grid_rows_def)
  then have "real n \<le> real (grid_rows n cols) * real cols"
    using assms by (simp add: pos_divide_le_eq)
  then have "real n \<le> real (cols * grid_rows n cols)" by (simp add: mult.commute)
  then show ?thesis by (simp only: of_nat_le_iff)
qed

lemma grid_rows_least:
  assumes "0 < cols" and "n \<le> cols * r"
  shows "grid_rows n cols \<le> r"
proof -
  have "real n \<le> real r * real cols"
    using assms(2) by (metis mult.commute of_nat_le_iff of_nat_mult)
  then have "real n / real cols \<le> real r"
    using assms(1) by (simp add: pos_divide_le_eq)
  then show ?thesis by (simp add: grid_rows_def)
qed

lemma grid_cols_eq: "(c - 1) * (c - 1) < n \<Longrightarrow> n \<le> c * c \<Longrightarrow> 0 < c \<Longrightarrow> grid_cols n = c"
proof -
  assume a: "(c - 1) * (c - 1) < n" and b: "n \<le> c * c" and c: "0 < c"
  have "sqrt (real n) \<le> real c"
    using b by (metis of_nat_le_iff of_nat_mult real_le_lsqrt of_nat_0_le_iff power2_eq_square)
  then have le: "grid_cols n \<le> c" by (rule grid_cols_least)
  have "real (c - 1) < sqrt (real n)"
    using a by (metis of_nat_less_iff of_nat_mult real_less_rsqrt power2_eq_square)
  then have "real (c - 1) < real (grid_cols n)" using grid_cols_ge[of n] by linarith
  then show ?thesis using le by simp
qed

lemma grid_rows_eq: "0 < cols \<Longrightarrow> n \<le> cols * r \<Longrightarrow> cols * (r - 1) < n \<Longrightarrow> grid_rows n cols = r"
proof -
  assume c: "0 < cols" and a: "n \<le> cols * r" and b: "cols * (r - 1) < n"
  have le: "grid_rows n cols \<le> r" using c a by (rule grid_rows_least)
  have "\<not> grid_rows n cols \<le> r - 1"
  proof
    assume "grid_rows n cols \<le> r - 1"
    then have "cols * grid_rows n cols \<le> cols * (r - 1)" by simp
    then show False using grid_rows_ge[OF c, of n] b by linarith
  qed
  then show ?thesis using le by simp
qed

lemma pack_sheet_entries:
  "out_entries (pack_sheet output_png (w, h) names) =
     map (\<lambda>(idx, name). (name, int (idx mod grid_cols (length names) * w),
                           int (idx div grid_cols (length names) * h), int w, int h))
         (enumerate 0 names)"
  by (simp add: pack_sheet_def Let_def)

lemma pack_sheet_size:
  "out_sheet_w (pack_sheet output_png (w, h) names) = grid_cols (length names) * w"
  "out_sheet_h (pack_sheet output_png (w, h) names)
     = grid_rows (length names) (grid_cols (length names)) * h"
  by (simp_all add: pack_sheet_def Let_def)




lemma div_less_rows:
  assumes "0 < cols" and "i < n"
  shows "i div cols < grid_rows n cols"
proof -
  have "i < cols * grid_rows n cols" using grid_rows_ge [OF assms(1), of n] assms(2) by linarith
  then show ?thesis using assms(1) by (simp add: less_mult_imp_div_less mult.commute)
qed

lemma pack_sheet_in_canvas:
  assumes "names \<noteq> []"
  shows "all_in_canvas (pack_sheet output_png (w, h) names)"
proof -
  let ?n = "length names" and ?cols = "grid_cols (length names)"
  let ?rows = "grid_rows ?n ?cols"
  have cols: "0 < ?cols" using assms by (simp add: grid_cols_pos)
  have "entry_in_canvas (?cols * w) (?rows * h)
          (nm, int (i mod ?cols * w), int (i div ?cols * h), int w, int h)"
    if "i < ?n" for i nm
  proof -
    have "i mod ?cols + 1 \<le> ?cols" using cols by (simp add: Suc_leI)
    then have "(i mod ?cols + 1) * w \<le> ?cols * w" by (rule mult_le_mono1)
    then have x: "i mod ?cols * w + w \<le> ?cols * w" by (simp add: algebra_simps)
    have "i div ?cols + 1 \<le> ?rows" using div_less_rows [OF cols that] by simp
    then have "(i div ?cols + 1) * h \<le> ?rows * h" by (rule mult_le_mono1)
    then have y: "i div ?cols * h + h \<le> ?rows * h" by (simp add: algebra_simps)
    show ?thesis
      unfolding entry_in_canvas_def using x y by (simp only: prod.case of_nat_add [symmetric] of_nat_le_iff)
  qed
  then show ?thesis
    unfolding all_in_canvas_def pack_sheet_size pack_sheet_entries
    by (auto simp: list_all_iff in_set_enumerate_eq)
qed

section \<open>What the patterns match\<close>

lemma re_mandatory_fail:
  assumes "q \<noteq> Opt" and "s = [] \<or> \<not> d (hd s)"
  shows "re_items b ((d, q) # items) s = None"
  using assms by (cases q; cases s) auto

lemma re_plus_disjoint:
  assumes dis: "\<And>x. c x \<Longrightarrow> \<not> d x" and q: "q \<noteq> Opt"
  shows "re_items b ((c, Plus) # (d, q) # items) s =
           (if takeWhile c s = [] then None
            else map_option ((#) (takeWhile c s)) (re_items b ((d, q) # items) (dropWhile c s)))"
proof (induction s)
  case Nil
  then show ?case by simp
next
  case (Cons x xs)
  show ?case
  proof (cases "c x")
    case False
    then show ?thesis by simp
  next
    case cx: True
    show ?thesis
    proof (cases "takeWhile c xs = []")
      case True
      then have "dropWhile c xs = xs" by (cases xs) (auto split: if_splits)
      then show ?thesis using cx True Cons.IH by simp
    next
      case False
      then obtain y ys where xs: "xs = y # ys" and cy: "c y"
        by (cases xs) (auto split: if_splits)
      show ?thesis
      proof (cases "re_items b ((d, q) # items) (dropWhile c xs)")
        case None
        have "re_items b ((d, q) # items) xs = None"
          using re_mandatory_fail [OF q, of xs d b items] xs cy dis by simp
        then show ?thesis using cx False Cons.IH None by simp
      next
        case (Some r)
        then show ?thesis using cx False Cons.IH by simp
      qed
    qed
  qed
qed

lemma re_opt_disjoint:
  assumes dis: "\<And>x. c x \<Longrightarrow> \<not> d x" and q: "q \<noteq> Opt"
  shows "re_items b ((c, Opt) # (d, q) # items) s =
           (case s of
              [] \<Rightarrow> None
            | x # xs \<Rightarrow>
                if c x then map_option ((#) [x]) (re_items b ((d, q) # items) xs)
                else map_option ((#) []) (re_items b ((d, q) # items) s))"
proof (cases s)
  case Nil
  then show ?thesis using re_mandatory_fail [OF q, of "[]" d b items] by simp
next
  case (Cons x xs)
  show ?thesis
  proof (cases "c x")
    case True
    then have "re_items b ((d, q) # items) (x # xs) = None"
      using re_mandatory_fail [OF q, of "x # xs" d b items] dis by simp
    then show ?thesis using Cons True by (simp split: option.splits)
  next
    case False
    then show ?thesis using Cons by simp
  qed
qed

lemma re_rest_of_line:
  assumes "CHR 0x0A \<notin> set t" and "t \<noteq> []"
  shows "re_items True [(not_newline, Plus)] t = Some [t]"
  using assms
proof (induction t)
  case Nil
  then show ?case by simp
next
  case (Cons x xs)
  have nx: "not_newline x" using Cons.prems by (auto simp: not_newline_def)
  show ?case
  proof (cases "xs = []")
    case True
    then show ?thesis using nx by (simp add: at_dollar_def)
  next
    case False
    then have "re_items True [(not_newline, Plus)] xs = Some [xs]"
      using Cons.IH Cons.prems by simp
    then show ?thesis using nx by simp
  qed
qed

lemma re_space_then_rest:
  assumes "CHR 0x0A \<notin> set s" and "dropWhile isspace s \<noteq> []"
  shows "re_items True [(isspace, Plus), (not_newline, Plus)] s =
           (if takeWhile isspace s = [] then None
            else Some [takeWhile isspace s, dropWhile isspace s])"
  using assms
proof (induction s)
  case Nil
  then show ?case by simp
next
  case (Cons x xs)
  show ?case
  proof (cases "isspace x")
    case False
    then show ?thesis by simp
  next
    case sx: True
    then have dw: "dropWhile isspace xs \<noteq> []" and nl: "CHR 0x0A \<notin> set xs"
      using Cons.prems by auto
    show ?thesis
    proof (cases "takeWhile isspace xs = []")
      case True
      then have id: "dropWhile isspace xs = xs" by (cases xs) (auto split: if_splits)
      then have "xs \<noteq> []" using dw by auto
      then have "re_items True [(not_newline, Plus)] xs = Some [xs]"
        using nl by (rule re_rest_of_line [rotated])
      then show ?thesis using sx True id Cons.IH [OF nl dw] by simp
    next
      case False
      then show ?thesis using sx Cons.IH [OF nl dw] by simp
    qed
  qed
qed

lemma digit_not_dot: "isdigit x \<Longrightarrow> \<not> is_dot x"
  by (auto simp: isdigit_def is_dot_def)

lemma dot_not_space: "is_dot x \<Longrightarrow> \<not> isspace x"
  by (auto simp: isspace_def is_dot_def)

lemma re_digits_dot:
  "re_items b ((isdigit, Plus) # (is_dot, One) # items) l =
     (if takeWhile isdigit l = [] then None
      else case dropWhile isdigit l of
             [] \<Rightarrow> None
           | x # r \<Rightarrow> if is_dot x
                      then map_option (\<lambda>gs. takeWhile isdigit l # [x] # gs) (re_items b items r)
                      else None)"
proof -
  have step: "re_items b ((isdigit, Plus) # (is_dot, One) # items) l =
          (if takeWhile isdigit l = [] then None
           else map_option ((#) (takeWhile isdigit l))
                  (re_items b ((is_dot, One) # items) (dropWhile isdigit l)))"
    by (rule re_plus_disjoint) (simp_all add: digit_not_dot)
  show ?thesis
  proof (cases "dropWhile isdigit l")
    case Nil
    show ?thesis unfolding step Nil by simp
  next
    case (Cons x r)
    show ?thesis unfolding step Cons by (simp add: option.map_comp comp_def)
  qed
qed

text \<open>The two patterns of lines 181 and 182 test how a line begins.\<close>

lemma row_col_prefix_iff:
  "re_items False re_row_col l \<noteq> None \<longleftrightarrow>
     (\<exists>ds c rest. l = ds @ ''.'' @ [c] @ rest \<and> ds \<noteq> [] \<and> list_all isdigit ds \<and> islower_az c)"
    (is "?m \<longleftrightarrow> ?shape")
proof
  assume m: ?m
  have tw: "takeWhile isdigit l \<noteq> []" using m unfolding re_row_col_def re_digits_dot by (auto split: if_splits)
  obtain x r where dw: "dropWhile isdigit l = x # r" and x: "is_dot x"
    and r: "re_items False [(islower_az, One)] r \<noteq> None"
    using m tw unfolding re_row_col_def re_digits_dot by (auto split: if_splits list.splits)
  obtain c rest where rr: "r = c # rest" and c: "islower_az c"
    using r by (cases r) (auto split: if_splits)
  have "l = takeWhile isdigit l @ dropWhile isdigit l" by simp
  then have "l = takeWhile isdigit l @ ''.'' @ [c] @ rest" using dw x rr by (simp add: is_dot_def)
  moreover have "list_all isdigit (takeWhile isdigit l)"
    by (simp add: list_all_iff) (meson set_takeWhileD)
  ultimately show ?shape using tw c by blast
next
  assume ?shape
  then obtain ds c rest where l: "l = ds @ ''.'' @ [c] @ rest" and ds: "ds \<noteq> []"
    and dig: "list_all isdigit ds" and c: "islower_az c" by blast
  have nd: "\<not> isdigit CHR ''.''" by (simp add: isdigit_def)
  have tw: "takeWhile isdigit l = ds" using l dig nd by (simp add: list_all_iff takeWhile_append2)
  have dw: "dropWhile isdigit l = ''.'' @ [c] @ rest" using l dig nd by (simp add: list_all_iff dropWhile_append2)
  show ?m unfolding re_row_col_def re_digits_dot using tw dw ds c by (simp add: is_dot_def)
qed

lemma row_num_prefix_iff:
  "re_items False re_row_num l \<noteq> None \<longleftrightarrow>
     (\<exists>ds c rest. l = ds @ ''.'' @ [c] @ rest \<and> ds \<noteq> [] \<and> list_all isdigit ds \<and> isspace c)"
    (is "?m \<longleftrightarrow> ?shape")
proof
  assume m: ?m
  have tw: "takeWhile isdigit l \<noteq> []" using m unfolding re_row_num_def re_digits_dot by (auto split: if_splits)
  obtain x r where dw: "dropWhile isdigit l = x # r" and x: "is_dot x"
    and r: "re_items False [(isspace, One)] r \<noteq> None"
    using m tw unfolding re_row_num_def re_digits_dot by (auto split: if_splits list.splits)
  obtain c rest where rr: "r = c # rest" and c: "isspace c"
    using r by (cases r) (auto split: if_splits)
  have "l = takeWhile isdigit l @ dropWhile isdigit l" by simp
  then have "l = takeWhile isdigit l @ ''.'' @ [c] @ rest" using dw x rr by (simp add: is_dot_def)
  moreover have "list_all isdigit (takeWhile isdigit l)"
    by (simp add: list_all_iff) (meson set_takeWhileD)
  ultimately show ?shape using tw c by blast
next
  assume ?shape
  then obtain ds c rest where l: "l = ds @ ''.'' @ [c] @ rest" and ds: "ds \<noteq> []"
    and dig: "list_all isdigit ds" and c: "isspace c" by blast
  have nd: "\<not> isdigit CHR ''.''" by (simp add: isdigit_def)
  have tw: "takeWhile isdigit l = ds" using l dig nd by (simp add: list_all_iff takeWhile_append2)
  have dw: "dropWhile isdigit l = ''.'' @ [c] @ rest" using l dig nd by (simp add: list_all_iff dropWhile_append2)
  show ?m unfolding re_row_num_def re_digits_dot using tw dw ds c by (simp add: is_dot_def)
qed

lemma takeWhile_all: "list_all P (takeWhile P xs)"
  by (induction xs) auto

lemma strip_id:
  assumes "s \<noteq> []" and "\<not> isspace (hd s)" and "\<not> isspace (last s)"
  shows "strip s = s"
proof -
  have a: "dropWhile isspace s = s" using assms by (cases s) auto
  obtain y ys where r: "rev s = y # ys" using assms(1) by (cases "rev s") auto
  have "hd (rev s) = last s" using assms(1) by (simp add: hd_rev)
  then have "\<not> isspace y" using r assms(3) by simp
  then have "dropWhile isspace (rev s) = rev s" unfolding r by simp
  then show ?thesis by (simp add: strip_def a)
qed

lemma strip_clean: "clean_line l \<Longrightarrow> strip l = l"
  by (simp add: clean_line_def strip_id)

lemma tail_match:
  assumes "clean_line (p @ r)"
  shows "re_items True [(isspace, Plus), (not_newline, Plus)] r =
           (if takeWhile isspace r = [] then None
            else Some [takeWhile isspace r, dropWhile isspace r])"
proof (cases "r = []")
  case True
  then show ?thesis by simp
next
  case False
  then have "last r = last (p @ r)" by simp
  then have ns: "\<not> isspace (last r)" using assms by (simp add: clean_line_def)
  have "dropWhile isspace r \<noteq> []"
  proof
    assume "dropWhile isspace r = []"
    then have "\<forall>x \<in> set r. isspace x" by (simp add: dropWhile_eq_Nil_conv)
    then show False using ns False last_in_set by blast
  qed
  moreover have "CHR 0x0A \<notin> set r" using assms by (simp add: clean_line_def)
  ultimately show ?thesis by (rule re_space_then_rest [rotated])
qed

lemma tail_match_Some:
  assumes "clean_line (p @ r)"
  shows "re_items True [(isspace, Plus), (not_newline, Plus)] r = Some gs \<longleftrightarrow>
           (\<exists>ws label. r = ws @ label \<and> ws \<noteq> [] \<and> list_all isspace ws \<and> label \<noteq> []
               \<and> \<not> isspace (hd label) \<and> gs = [ws, label])"
    (is "?m \<longleftrightarrow> ?shape")
proof
  assume m: ?m
  then have tw: "takeWhile isspace r \<noteq> []"
    and gs: "gs = [takeWhile isspace r, dropWhile isspace r]"
    unfolding tail_match [OF assms] by (auto split: if_splits)
  have rne: "r \<noteq> []" using tw by auto
  then have "last r = last (p @ r)" by simp
  then have ns: "\<not> isspace (last r)" using assms by (simp add: clean_line_def)
  have dne: "dropWhile isspace r \<noteq> []"
  proof
    assume "dropWhile isspace r = []"
    then have "\<forall>x \<in> set r. isspace x" by (simp add: dropWhile_eq_Nil_conv)
    then show False using ns rne last_in_set by blast
  qed
  have "\<not> isspace (hd (dropWhile isspace r))" using hd_dropWhile [OF dne] .
  moreover have "r = takeWhile isspace r @ dropWhile isspace r" by simp
  ultimately show ?shape using tw gs dne takeWhile_all [of isspace r] by blast
next
  assume ?shape
  then obtain ws label where r: "r = ws @ label" and ws: "ws \<noteq> []" "list_all isspace ws"
    and lab: "label \<noteq> []" "\<not> isspace (hd label)" and gs: "gs = [ws, label]" by blast
  have "takeWhile isspace label = []" using lab by (cases label) auto
  then have tw: "takeWhile isspace r = ws" using r ws by (simp add: list_all_iff takeWhile_append2)
  have "dropWhile isspace label = label" using lab by (cases label) auto
  then have dw: "dropWhile isspace r = label" using r ws by (simp add: list_all_iff dropWhile_append2)
  show ?m unfolding tail_match [OF assms] using tw dw ws gs by simp
qed

lemma digits_prefix:
  assumes "list_all isdigit ds" and "\<not> isdigit x"
  shows "takeWhile isdigit (ds @ x # r) = ds" and "dropWhile isdigit (ds @ x # r) = x # r"
  using assms by (simp_all add: list_all_iff takeWhile_append2 dropWhile_append2)

lemma row_label_match:
  assumes cl: "clean_line l"
  shows "re_items True re_row_label l = Some gs \<longleftrightarrow>
           (\<exists>ds ws label. l = ds @ ''.'' @ ws @ label \<and> ds \<noteq> [] \<and> list_all isdigit ds
               \<and> ws \<noteq> [] \<and> list_all isspace ws \<and> label \<noteq> [] \<and> \<not> isspace (hd label)
               \<and> gs = [ds, ''.'', ws, label])"
    (is "?m \<longleftrightarrow> ?shape")
proof
  assume m: ?m
  have tw: "takeWhile isdigit l \<noteq> []"
    using m unfolding re_row_label_def re_digits_dot by (auto split: if_splits simp del: re_items.simps)
  obtain x r gs' where dw: "dropWhile isdigit l = x # r" and x: "is_dot x"
    and r: "re_items True [(isspace, Plus), (not_newline, Plus)] r = Some gs'"
    and gs: "gs = takeWhile isdigit l # [x] # gs'"
    using m tw unfolding re_row_label_def re_digits_dot
    by (auto split: if_splits list.splits simp del: re_items.simps)
  have l: "l = (takeWhile isdigit l @ [x]) @ r"
    using takeWhile_dropWhile_id [of isdigit l] dw by simp
  then have "clean_line ((takeWhile isdigit l @ [x]) @ r)" using cl by simp
  from tail_match_Some [OF this, of gs'] r
  obtain ws label where "r = ws @ label" "ws \<noteq> []" "list_all isspace ws" "label \<noteq> []"
    "\<not> isspace (hd label)" "gs' = [ws, label]" by blast
  then show ?shape using l x gs tw takeWhile_all [of isdigit l]
    by (auto simp: is_dot_def)
next
  assume ?shape
  then obtain ds ws label where l: "l = ds @ ''.'' @ ws @ label" and ds: "ds \<noteq> []"
    and dig: "list_all isdigit ds" and ws: "ws \<noteq> []" "list_all isspace ws"
    and lab: "label \<noteq> []" "\<not> isspace (hd label)" and gs: "gs = [ds, ''.'', ws, label]"
    by blast
  have nd: "\<not> isdigit CHR ''.''" by (simp add: isdigit_def)
  have tw: "takeWhile isdigit l = ds" and dw: "dropWhile isdigit l = CHR ''.'' # (ws @ label)"
    using digits_prefix [OF dig nd, of "ws @ label"] l by simp_all
  have "clean_line ((ds @ ''.'') @ (ws @ label))" using cl l by simp
  from tail_match_Some [OF this, of "[ws, label]"]
  have "re_items True [(isspace, Plus), (not_newline, Plus)] (ws @ label) = Some [ws, label]"
    using ws lab by blast
  then show ?m unfolding re_row_label_def re_digits_dot tw dw using ds gs
    by (simp add: is_dot_def del: re_items.simps)
qed

lemma grid_ref_match:
  assumes cl: "clean_line l"
  shows "re_items True re_grid_ref l = Some gs \<longleftrightarrow>
           (\<exists>ds c dot ws label. l = ds @ ''.'' @ [c] @ dot @ ws @ label
               \<and> ds \<noteq> [] \<and> list_all isdigit ds \<and> islower_az c \<and> (dot = [] \<or> dot = ''.'')
               \<and> ws \<noteq> [] \<and> list_all isspace ws \<and> label \<noteq> [] \<and> \<not> isspace (hd label)
               \<and> gs = [ds, ''.'', [c], dot, ws, label])"
    (is "?m \<longleftrightarrow> ?shape")
proof
  let ?tail = "[(isspace, Plus), (not_newline, Plus)]"
  let ?opt = "(is_dot, Opt) # ?tail"
  assume m: ?m
  have tw: "takeWhile isdigit l \<noteq> []"
    using m unfolding re_grid_ref_def re_digits_dot by (auto split: if_splits simp del: re_items.simps)
  obtain x r g1 where dw: "dropWhile isdigit l = x # r" and x: "is_dot x"
    and r: "re_items True ((islower_az, One) # ?opt) r = Some g1"
    and gs: "gs = takeWhile isdigit l # [x] # g1"
    using m tw unfolding re_grid_ref_def re_digits_dot
    by (auto split: if_splits list.splits simp del: re_items.simps)
  obtain c r2 g2 where rr: "r = c # r2" and c: "islower_az c"
    and r2: "re_items True ?opt r2 = Some g2" and g1: "g1 = [c] # g2"
    using r by (cases r) (auto split: if_splits simp del: re_items.simps simp add: re_items.simps(2))
  have l: "l = takeWhile isdigit l @ ''.'' @ [c] @ r2"
    using takeWhile_dropWhile_id [of isdigit l] dw rr x by (simp add: is_dot_def)
  have opt: "re_items True ?opt r2 =
           (case r2 of
              [] \<Rightarrow> None
            | y # ys \<Rightarrow>
                if is_dot y then map_option ((#) [y]) (re_items True ?tail ys)
                else map_option ((#) []) (re_items True ?tail r2))"
    by (rule re_opt_disjoint) (simp_all add: dot_not_space)
  obtain dot r3 g3 where r3: "r2 = dot @ r3" and dot: "dot = [] \<or> dot = ''.''"
    and t: "re_items True ?tail r3 = Some g3" and g2: "g2 = dot # g3"
  proof (cases r2)
    case Nil
    then show ?thesis using r2 unfolding opt by simp
  next
    case (Cons y ys)
    show ?thesis
    proof (cases "is_dot y")
      case True
      then obtain g3 where "re_items True ?tail ys = Some g3" "g2 = [y] # g3"
        using r2 Cons unfolding opt by (auto simp del: re_items.simps)
      then show ?thesis using that [of "[y]" ys g3] Cons True by (simp add: is_dot_def)
    next
      case False
      then obtain g3 where "re_items True ?tail r2 = Some g3" "g2 = [] # g3"
        using r2 Cons unfolding opt by (auto simp del: re_items.simps)
      then show ?thesis using that [of "[]" r2 g3] by simp
    qed
  qed
  have "clean_line ((takeWhile isdigit l @ ''.'' @ [c] @ dot) @ r3)"
    using cl l r3 by simp
  from tail_match_Some [OF this, of g3] t
  obtain ws label where "r3 = ws @ label" "ws \<noteq> []" "list_all isspace ws" "label \<noteq> []"
    "\<not> isspace (hd label)" "g3 = [ws, label]" by blast
  then have "l = takeWhile isdigit l @ ''.'' @ [c] @ dot @ ws @ label
      \<and> gs = [takeWhile isdigit l, ''.'', [c], dot, ws, label]"
    using l r3 gs g1 g2 x by (simp add: is_dot_def)
  then show ?shape
    using tw takeWhile_all [of isdigit l] c dot
      \<open>ws \<noteq> []\<close> \<open>list_all isspace ws\<close> \<open>label \<noteq> []\<close> \<open>\<not> isspace (hd label)\<close>
    by blast
next
  let ?tail = "[(isspace, Plus), (not_newline, Plus)]"
  let ?opt = "(is_dot, Opt) # ?tail"
  assume ?shape
  then obtain ds c dot ws label where l: "l = ds @ ''.'' @ [c] @ dot @ ws @ label"
    and ds: "ds \<noteq> []" and dig: "list_all isdigit ds" and c: "islower_az c"
    and dot: "dot = [] \<or> dot = ''.''" and ws: "ws \<noteq> []" "list_all isspace ws"
    and lab: "label \<noteq> []" "\<not> isspace (hd label)"
    and gs: "gs = [ds, ''.'', [c], dot, ws, label]"
    by blast
  have nd: "\<not> isdigit CHR ''.''" by (simp add: isdigit_def)
  have tw: "takeWhile isdigit l = ds"
    and dw: "dropWhile isdigit l = CHR ''.'' # (c # dot @ ws @ label)"
    using digits_prefix [OF dig nd, of "c # dot @ ws @ label"] l by simp_all
  have "clean_line ((ds @ ''.'' @ [c] @ dot) @ (ws @ label))" using cl l by simp
  from tail_match_Some [OF this, of "[ws, label]"]
  have t: "re_items True ?tail (ws @ label) = Some [ws, label]"
    using ws lab by blast
  have opt: "re_items True ?opt r2 =
           (case r2 of
              [] \<Rightarrow> None
            | y # ys \<Rightarrow>
                if is_dot y then map_option ((#) [y]) (re_items True ?tail ys)
                else map_option ((#) []) (re_items True ?tail r2))" for r2
    by (rule re_opt_disjoint) (simp_all add: dot_not_space)
  obtain w wss where wsc: "ws = w # wss" and w: "isspace w" using ws by (cases ws) auto
  have nw: "\<not> is_dot w" using w dot_not_space by blast
  have "re_items True ?opt (dot @ ws @ label) = Some [dot, ws, label]"
  proof (cases "dot = []")
    case True
    then show ?thesis unfolding opt using t nw unfolding wsc by (simp del: re_items.simps)
  next
    case False
    then have "dot = ''.''" using dot by simp
    then show ?thesis unfolding opt using t by (simp add: is_dot_def del: re_items.simps)
  qed
  then have "re_items True ((islower_az, One) # ?opt) (c # dot @ ws @ label)
               = Some [[c], dot, ws, label]"
    using c by (simp del: re_items.simps add: re_items.simps(2))
  then show ?m unfolding re_grid_ref_def re_digits_dot tw dw using ds gs
    by (simp add: is_dot_def del: re_items.simps)
qed

lemma splitext_fa: "splitext_root ''fa1.PNG'' = ''fa1''" "splitext_root ''fa2.png'' = ''fa2''"
   "splitext_root ''fa10.png'' = ''fa10''"
  by code_simp+

section \<open>Two category folders, as an example\<close>

lemma example_categories:
  "collect_categories (sort_key fst
      [(''weapons'', Some [''sword10.png'', ''notes.txt'', ''sword2.PNG'']), (''README'', None),
       (''armor'', Some [''helm.png''])])
   = Inr [''armor/helm'', ''weapons/sword2'', ''weapons/sword10'']"
  by code_simp

lemma example_no_categories:
  "collect_categories (sort_key fst [(''docs'', Some [''notes.txt'']), (''README'', None)]) = Inr []"
  by code_simp

lemma example_categorized_run:
  "create_spritesheet_from_categorized_dirs
      [(''weapons'', Some [''sword10.png'', ''notes.txt'', ''sword2.PNG'']), (''README'', None),
       (''armor'', Some [''helm.png''])] ''out/rpg.png'' (32, 32)
   = Inr (Some (pack_sheet ''out/rpg.png'' (32, 32)
                  [''armor/helm'', ''weapons/sword2'', ''weapons/sword10'']))"
  unfolding create_spritesheet_from_categorized_dirs_def example_categories by simp

section \<open>The claims about the packer\<close>

text \<open>
  C5. For every icon count \<open>n \<ge> 1\<close>, the packer's \<open>cols\<close> is the smallest integer that is
  at least the square root of \<open>n\<close>, its \<open>rows\<close> is the smallest integer with
  \<open>cols * rows \<ge> n\<close>, and the canvas of a sheet of \<open>n\<close> icons of size \<open>w\<close> by \<open>h\<close> is
  \<open>cols * w\<close> by \<open>rows * h\<close> pixels.
\<close>

theorem grid_dimensions_minimal:
  assumes "1 \<le> n"
  shows "sqrt (real n) \<le> real (grid_cols n)
       \<and> (\<forall>c::int. sqrt (real n) \<le> of_int c \<longrightarrow> int (grid_cols n) \<le> c)
       \<and> n \<le> grid_cols n * grid_rows n (grid_cols n)
       \<and> (\<forall>r::int. int n \<le> int (grid_cols n) * r \<longrightarrow> int (grid_rows n (grid_cols n)) \<le> r)
       \<and> (length names = n \<longrightarrow>
            out_sheet_w (pack_sheet output_png (w, h) names) = grid_cols n * w
          \<and> out_sheet_h (pack_sheet output_png (w, h) names) = grid_rows n (grid_cols n) * h)"
proof (intro conjI allI impI)
  have pos: "0 < grid_cols n" using assms by (simp add: grid_cols_pos)
  show "sqrt (real n) \<le> real (grid_cols n)" by (rule grid_cols_ge)
  show "n \<le> grid_cols n * grid_rows n (grid_cols n)" by (rule grid_rows_ge [OF pos])
  show "int (grid_cols n) \<le> c" if c: "sqrt (real n) \<le> of_int c" for c :: int
  proof -
    have "0 \<le> sqrt (real n)" by simp
    then have "0 \<le> (of_int c :: real)" using c by linarith
    then have c0: "0 \<le> c" by simp
    then have "sqrt (real n) \<le> real (nat c)" using c by simp
    then have "grid_cols n \<le> nat c" by (rule grid_cols_least)
    then show ?thesis using c0 by linarith
  qed
  show "int (grid_rows n (grid_cols n)) \<le> r" if r: "int n \<le> int (grid_cols n) * r" for r :: int
  proof -
    have "0 < int (grid_cols n) * r" using r assms by linarith
    then have r0: "0 \<le> r" using pos by (simp add: zero_less_mult_iff)
    then have "int n \<le> int (grid_cols n * nat r)" using r by simp
    then have "n \<le> grid_cols n * nat r" by (simp only: of_nat_le_iff)
    then have "grid_rows n (grid_cols n) \<le> nat r" by (rule grid_rows_least [OF pos])
    then show ?thesis using r0 by linarith
  qed
  show "out_sheet_w (pack_sheet output_png (w, h) names) = grid_cols n * w" if "length names = n"
    using that by (simp add: pack_sheet_size)
  show "out_sheet_h (pack_sheet output_png (w, h) names) = grid_rows n (grid_cols n) * h"
    if "length names = n"
    using that by (simp add: pack_sheet_size)
qed

theorem grid_dimensions_minimal_witness:
  "grid_cols 10 = 4 \<and> grid_rows 10 (grid_cols 10) = 3
   \<and> 10 \<le> grid_cols 10 * grid_rows 10 (grid_cols 10)
   \<and> out_sheet_w (pack_sheet ''sheet.png'' (16, 32) (replicate 10 ''icon'')) = 64
   \<and> out_sheet_h (pack_sheet ''sheet.png'' (16, 32) (replicate 10 ''icon'')) = 96"
proof -
  have c: "grid_cols 10 = 4" by (rule grid_cols_eq) simp_all
  have r: "grid_rows 10 4 = 3" by (rule grid_rows_eq) simp_all
  have n: "(1::nat) \<le> 10" by simp
  show ?thesis
    using grid_dimensions_minimal [OF n, of "replicate 10 ''icon''" "''sheet.png''" 16 32] c r
    by simp
qed



section \<open>Stripped lines and the records of the legacy translator\<close>

lemma last_dropWhile_ne: "dropWhile P xs \<noteq> [] \<Longrightarrow> last (dropWhile P xs) = last xs"
  by (induction xs) (auto split: if_splits)

lemma strip_ends:
  assumes "strip s \<noteq> []"
  shows "\<not> isspace (hd (strip s))" and "\<not> isspace (last (strip s))"
proof -
  let ?d = "dropWhile isspace s"
  let ?e = "dropWhile isspace (rev ?d)"
  have e: "?e \<noteq> []" using assms by (simp add: strip_def)
  have d: "?d \<noteq> []"
  proof
    assume "?d = []"
    then have "?e = []" by (simp only: rev.simps dropWhile.simps)
    then show False using e by simp
  qed
  have "last ?e = last (rev ?d)" using e by (rule last_dropWhile_ne)
  also have "\<dots> = hd ?d" using d by (simp add: last_rev)
  finally have "hd (rev ?e) = hd ?d" using e by (simp add: hd_rev)
  then show "\<not> isspace (hd (strip s))" using hd_dropWhile [OF d] by (simp add: strip_def)
  have "last (rev ?e) = hd ?e" using e by (simp add: last_rev)
  then show "\<not> isspace (last (strip s))" using hd_dropWhile [OF e] by (simp add: strip_def)
qed

lemma strip_strip: "strip (strip s) = strip s"
proof (cases "strip s = []")
  case True
  have "strip [] = []" by (simp add: strip_def)
  then show ?thesis unfolding True .
next
  case False
  then show ?thesis using strip_ends [OF False] by (simp add: strip_id)
qed

lemma all_lines_stripped: "l \<in> set (all_lines_of f) \<Longrightarrow> strip l = l \<and> l \<noteq> []"
  by (auto simp: all_lines_of_def strip_strip)

lemma map_strip_all_lines: "map strip (all_lines_of f) = all_lines_of f"
  by (rule map_idI) (simp add: all_lines_stripped)

lemma set_strip_subset: "set (strip s) \<subseteq> set s"
proof -
  have "set (strip s) \<subseteq> set (dropWhile isspace s)"
    unfolding strip_def using set_dropWhileD [of _ isspace "rev (dropWhile isspace s)"] by auto
  then show ?thesis using set_dropWhileD [of _ isspace s] by auto
qed

text \<open>A line read from a text file has a newline at most as its last character; its
  stripped form is then a clean line.\<close>

lemma strip_snoc_space: "isspace z \<Longrightarrow> strip (b @ [z]) = strip b"
proof -
  assume z: "isspace z"
  show ?thesis
  proof (cases "dropWhile isspace b = []")
    case True
    then have "\<forall>x\<in>set b. isspace x" by (simp add: dropWhile_eq_Nil_conv)
    then have bz: "dropWhile isspace (b @ [z]) = []" using z by (simp add: dropWhile_eq_Nil_conv)
    show ?thesis unfolding strip_def bz True ..
  next
    case False
    then have "dropWhile isspace (b @ [z]) = dropWhile isspace b @ [z]"
      by (simp add: dropWhile_append1 dropWhile_eq_Nil_conv) (metis dropWhile_append1)
    then show ?thesis using z by (simp add: strip_def)
  qed
qed

lemma file_line_clean:
  assumes nl: "CHR 0x0A \<notin> set (butlast raw)" and ne: "strip raw \<noteq> []"
  shows "clean_line (strip raw)"
proof -
  have "CHR 0x0A \<notin> set (strip raw)"
  proof (cases "raw = []")
    case True
    then show ?thesis by (simp add: strip_def)
  next
    case False
    then have raw: "raw = butlast raw @ [last raw]" by simp
    show ?thesis
    proof (cases "isspace (last raw)")
      case True
      then have "strip raw = strip (butlast raw)" using raw strip_snoc_space by metis
      then show ?thesis using nl set_strip_subset [of "butlast raw"] by auto
    next
      case False
      then have "last raw \<noteq> CHR 0x0A" by (auto simp: isspace_def)
      then have "CHR 0x0A \<notin> set raw" using nl raw
        by (metis Un_iff empty_iff empty_set set_ConsD set_append)
      then show ?thesis using set_strip_subset [of raw] by auto
    qed
  qed
  then show ?thesis using ne strip_ends [OF ne] by (simp add: clean_line_def)
qed

lemma plain_label_loop_enumerate:
  "plain_label_loop ts cols rpg (n * rpg) ls =
     concat (map (\<lambda>(k, line).
                concat (map (\<lambda>r. map (\<lambda>c.
                   (strip line @ '' [row '' @ str_nat r @ '', col '' @ str_nat c @ '']'',
                    int c * int ts, (int (k * rpg) + int r) * int ts, int ts, int ts))
                 [0..<cols]) [0..<rpg]))
             (enumerate n ls))"
proof (induction ls arbitrary: n)
  case Nil
  then show ?case by simp
next
  case (Cons l rest)
  have "n * rpg + rpg = Suc n * rpg" by simp
  then show ?case using Cons.IH [of "Suc n"] by (simp del: mult_Suc)
qed

lemma length_concat_const:
  assumes "\<And>x. x \<in> set xs \<Longrightarrow> length (f x) = m"
  shows "length (concat (map f xs)) = length xs * m"
  using assms by (induction xs) auto

lemma plain_label_records_closed:
  "plain_label_records ts cols rows ls =
     concat (map (\<lambda>(k, line).
                concat (map (\<lambda>r. map (\<lambda>c.
                   (strip line @ '' [row '' @ str_nat r @ '', col '' @ str_nat c @ '']'',
                    int c * int ts, (int (k * (rows div max 1 (length ls))) + int r) * int ts,
                    int ts, int ts))
                 [0..<cols]) [0..<rows div max 1 (length ls)]))
             (enumerate 0 ls))"
  using plain_label_loop_enumerate [of ts cols "rows div max 1 (length ls)" 0 ls]
  by (simp add: plain_label_records_def Let_def)

lemma plain_label_member:
  assumes "e \<in> set (plain_label_records ts cols rows ls)"
  shows "\<exists>k r c. k < length ls \<and> r < rows div max 1 (length ls) \<and> c < cols
           \<and> e = (strip (ls ! k) @ '' [row '' @ str_nat r @ '', col '' @ str_nat c @ '']'',
                   int c * int ts, (int (k * (rows div max 1 (length ls))) + int r) * int ts,
                   int ts, int ts)"
  using assms unfolding plain_label_records_closed
  apply (clarsimp simp: in_set_enumerate_eq)
  subgoal for k r c
    by (rule exI [of _ k], simp, rule exI [of _ r], simp, rule exI [of _ c], simp)
  done

lemma plain_label_bounds:
  assumes "e \<in> set (plain_label_records ts cols rows ls)"
  shows "case e of (name, x, y, w, h) \<Rightarrow>
           w = int ts \<and> h = int ts \<and> 0 \<le> x \<and> x + w \<le> int (cols * ts)
           \<and> 0 \<le> y \<and> y + h \<le> int (length ls * (rows div max 1 (length ls)) * ts)"
proof -
  let ?g = "rows div max 1 (length ls)"
  obtain k r c where k: "k < length ls" and r: "r < ?g" and c: "c < cols"
    and e: "e = (strip (ls ! k) @ '' [row '' @ str_nat r @ '', col '' @ str_nat c @ '']'',
                   int c * int ts, (int (k * ?g) + int r) * int ts, int ts, int ts)"
    using plain_label_member [OF assms] by blast
  have "(c + 1) * ts \<le> cols * ts" using c by (intro mult_le_mono1) simp
  then have x: "c * ts + ts \<le> cols * ts" by (simp add: algebra_simps)
  have "k * ?g + r + 1 \<le> k * ?g + ?g" using r by simp
  also have "\<dots> = (k + 1) * ?g" by simp
  also have "\<dots> \<le> length ls * ?g" using k by (intro mult_le_mono1) simp
  finally have "(k * ?g + r + 1) * ts \<le> length ls * ?g * ts" by (rule mult_le_mono1)
  then have y: "(k * ?g + r) * ts + ts \<le> length ls * ?g * ts" by (simp add: algebra_simps)
  have "int c * int ts + int ts \<le> int (cols * ts)"
    using x by (simp only: of_nat_mult [symmetric] of_nat_add [symmetric] of_nat_le_iff)
  moreover have "(int (k * ?g) + int r) * int ts + int ts \<le> int (length ls * ?g * ts)"
    using y by (simp only: of_nat_mult [symmetric] of_nat_add [symmetric] of_nat_le_iff)
  moreover have "0 \<le> int c * int ts" "0 \<le> (int (k * ?g) + int r) * int ts" by simp_all
  ultimately show ?thesis unfolding e by simp
qed

lemma groups_fit: "length ls * (rows div max 1 (length ls)) \<le> rows"
proof (cases ls)
  case Nil
  then show ?thesis by simp
next
  case (Cons l rest)
  have "max 1 (Suc (length rest)) = Suc (length rest)" by (simp add: max_def)
  then show ?thesis unfolding Cons list.size by (simp del: mult_Suc)
qed

lemma legacy_PlainLabel:
  "detect_format ls = PlainLabel \<Longrightarrow> legacy_records ts cols rows ls = plain_label_records ts cols rows ls"
  by (auto simp: detect_format_def legacy_records_def split: if_splits)

lemma legacy_RowLabel:
  "detect_format ls = RowLabel \<Longrightarrow> legacy_records ts cols rows ls = row_label_records ts cols ls"
  by (auto simp: detect_format_def legacy_records_def split: if_splits)

lemma legacy_GridRef:
  "detect_format ls = GridRef \<Longrightarrow> legacy_records ts cols rows ls = grid_ref_records ts ls"
  by (auto simp: detect_format_def legacy_records_def split: if_splits)

lemma generate_sheet_atlas_Some:
  "generate_sheet_atlas ts sheet_name (Some (sheet_w, sheet_h)) (Some f) =
     Some \<lparr>out_sheet_w = sheet_w, out_sheet_h = sheet_h,
           out_entries = legacy_records ts (sheet_w div ts) (sheet_h div ts) (all_lines_of f),
           out_atlas = write_atlas (''32rogues-'' @ sheet_name @ ''.png'')
              (length (legacy_records ts (sheet_w div ts) (sheet_h div ts) (all_lines_of f)))
              sheet_w sheet_h ts ts
              (legacy_records ts (sheet_w div ts) (sheet_h div ts) (all_lines_of f))\<rparr>"
  by (simp add: generate_sheet_atlas_def Let_def)

lemma row_label_line_x:
  assumes "e \<in> set (row_label_line ts cols line)"
  shows "case e of (name, x, y, w, h) \<Rightarrow> 0 \<le> x \<and> x + w \<le> int (cols * ts)"
proof -
  obtain name y c where c: "c < cols" and e: "e = (name, int c * int ts, y, int ts, int ts)"
    using assms unfolding row_label_line_def
    by (auto split: option.splits list.splits simp: Let_def)
  have "(c + 1) * ts \<le> cols * ts" using c by (intro mult_le_mono1) simp
  then have "c * ts + ts \<le> cols * ts" by (simp add: algebra_simps)
  then have "int c * int ts + int ts \<le> int (cols * ts)"
    by (simp only: of_nat_mult [symmetric] of_nat_add [symmetric] of_nat_le_iff)
  then show ?thesis unfolding e by simp
qed

section \<open>The claims about the canvas, skipped sheets and empty atlases\<close>

text \<open>
  C2, as amended. Every record of the packer (both functions) satisfies
  \<open>x + w \<le> canvasWidth\<close> and \<open>y + h \<le> canvasHeight\<close>, and so does every record the legacy
  translator emits in PlainLabel format; in RowLabel format every record satisfies
  \<open>x + w \<le> canvasWidth\<close>. The rows of RowLabel records and the rows and columns of GridRef
  records are read from the label text and are not compared with the size of the sheet.
\<close>

theorem records_within_canvas:
  "(create_spritesheet_from_dir listing output_png (w, h) name_fn = Inr (Some out)
      \<longrightarrow> all_in_canvas out)
   \<and> (create_spritesheet_from_categorized_dirs base output_png (w, h) = Inr (Some out)
      \<longrightarrow> all_in_canvas out)
   \<and> (0 < ts \<and> detect_format (all_lines_of f) = PlainLabel
       \<and> generate_sheet_atlas ts sheet_name (Some (sheet_w, sheet_h)) (Some f) = Some out'
      \<longrightarrow> all_in_canvas out')
   \<and> (0 < ts \<and> detect_format (all_lines_of f) = RowLabel
       \<and> generate_sheet_atlas ts sheet_name (Some (sheet_w, sheet_h)) (Some f) = Some out'
      \<longrightarrow> list_all (\<lambda>(name, x, y, w, h). x + w \<le> int sheet_w) (out_entries out'))"
proof (intro conjI impI)
  assume "create_spritesheet_from_dir listing output_png (w, h) name_fn = Inr (Some out)"
  then obtain files where "files \<noteq> []"
    and "out = pack_sheet output_png (w, h) (map (icon_name name_fn) files)"
    unfolding create_spritesheet_from_dir_def by (auto split: sum.splits if_splits)
  then show "all_in_canvas out" by (simp add: pack_sheet_in_canvas)
next
  assume "create_spritesheet_from_categorized_dirs base output_png (w, h) = Inr (Some out)"
  then obtain names where "names \<noteq> []" and "out = pack_sheet output_png (w, h) names"
    unfolding create_spritesheet_from_categorized_dirs_def
    by (auto split: sum.splits if_splits)
  then show "all_in_canvas out" by (simp add: pack_sheet_in_canvas)
next
  let ?ls = "all_lines_of f"
  let ?cols = "sheet_w div ts" and ?rows = "sheet_h div ts"
  assume a: "0 < ts \<and> detect_format ?ls = PlainLabel
       \<and> generate_sheet_atlas ts sheet_name (Some (sheet_w, sheet_h)) (Some f) = Some out'"
  then have w: "out_sheet_w out' = sheet_w" and h: "out_sheet_h out' = sheet_h"
    and es: "out_entries out' = plain_label_records ts ?cols ?rows ?ls"
    unfolding generate_sheet_atlas_Some by (auto simp: legacy_PlainLabel)
  have cw: "?cols * ts \<le> sheet_w" by simp
  have "length ?ls * (?rows div max 1 (length ?ls)) * ts \<le> ?rows * ts"
    by (intro mult_le_mono1 groups_fit)
  also have "\<dots> \<le> sheet_h" by simp
  finally have ch: "length ?ls * (?rows div max 1 (length ?ls)) * ts \<le> sheet_h" .
  have "entry_in_canvas sheet_w sheet_h e" if "e \<in> set (plain_label_records ts ?cols ?rows ?ls)" for e
  proof -
    obtain name x y w' h' where e: "e = (name, x, y, w', h')" by (cases e)
    have "x + w' \<le> int (?cols * ts)"
      and "y + h' \<le> int (length ?ls * (?rows div max 1 (length ?ls)) * ts)"
      using plain_label_bounds [OF that] unfolding e prod.case by blast+
    moreover have "int (?cols * ts) \<le> int sheet_w" using cw by (simp only: of_nat_le_iff)
    moreover have "int (length ?ls * (?rows div max 1 (length ?ls)) * ts) \<le> int sheet_h"
      using ch by (simp only: of_nat_le_iff)
    ultimately have "x + w' \<le> int sheet_w \<and> y + h' \<le> int sheet_h" by linarith
    then show ?thesis unfolding e entry_in_canvas_def prod.case .
  qed
  then show "all_in_canvas out'" by (simp add: all_in_canvas_def w h es list_all_iff)
next
  let ?ls = "all_lines_of f"
  let ?cols = "sheet_w div ts" and ?rows = "sheet_h div ts"
  assume a: "0 < ts \<and> detect_format ?ls = RowLabel
       \<and> generate_sheet_atlas ts sheet_name (Some (sheet_w, sheet_h)) (Some f) = Some out'"
  then have es: "out_entries out' = row_label_records ts ?cols ?ls"
    unfolding generate_sheet_atlas_Some by (auto simp: legacy_RowLabel)
  have cw: "?cols * ts \<le> sheet_w" by simp
  have "case e of (name, x, y, w, h) \<Rightarrow> x + w \<le> int sheet_w"
    if mem: "e \<in> set (row_label_records ts ?cols ?ls)" for e
  proof -
    obtain line where "e \<in> set (row_label_line ts ?cols line)"
      using mem by (auto simp: row_label_records_def)
    then have b: "case e of (name, x, y, w, h) \<Rightarrow> 0 \<le> x \<and> x + w \<le> int (?cols * ts)"
      by (rule row_label_line_x)
    obtain name x y w' h' where e: "e = (name, x, y, w', h')" by (cases e)
    have "x + w' \<le> int (?cols * ts)" using b unfolding e prod.case by blast
    moreover have "int (?cols * ts) \<le> int sheet_w" using cw by (simp only: of_nat_le_iff)
    ultimately have "x + w' \<le> int sheet_w" by linarith
    then show ?thesis unfolding e prod.case .
  qed
  then show "list_all (\<lambda>(name, x, y, w, h). x + w \<le> int sheet_w) (out_entries out')"
    unfolding es list_all_iff by blast
qed

text \<open>The claim as stated fails: on a sheet of one tile, the line \<^verbatim>\<open>2.b sword\<close> yields a
  record at \<open>(32, 32)\<close>, outside the 32 by 32 canvas.\<close>

theorem records_within_canvas_counterexample:
  "map_option all_in_canvas
     (generate_sheet_atlas tile_size ''items'' (Some (32, 32)) (Some [''2.b sword'' @ [CHR 0x0A]]))
   = Some False
   \<and> map_option out_entries
     (generate_sheet_atlas tile_size ''items'' (Some (32, 32)) (Some [''2.b sword'' @ [CHR 0x0A]]))
   = Some [(''sword'', 32, 32, 32, 32)]"
  by code_simp

theorem records_within_canvas_witness:
  "all_in_canvas (pack_sheet ''out/sheet.png'' (16, 32) [''fa1'', ''fa2'', ''fa10''])
   \<and> all_in_canvas (pack_sheet ''out/rpg.png'' (32, 32)
                      [''armor/helm'', ''weapons/sword2'', ''weapons/sword10''])
   \<and> map_option all_in_canvas
       (generate_sheet_atlas tile_size ''autotiles'' (Some (70, 40)) (Some [''wall'' @ [CHR 0x0A]]))
     = Some True
   \<and> map_option (\<lambda>out. list_all (\<lambda>(name, x, y, w, h). x + w \<le> 70) (out_entries out))
       (generate_sheet_atlas tile_size ''animated-tiles'' (Some (70, 40))
          (Some [''9. torch'' @ [CHR 0x0A]]))
     = Some True"
proof -
  let ?L = "[''fa10.png'', ''fa2.png'', ''notes.txt'', ''fa1.PNG'']"
  let ?out = "pack_sheet ''out/sheet.png'' (16, 32) [''fa1'', ''fa2'', ''fa10'']"
  have f: "filter (\<lambda>f. endswith (lower f) ''.png'') ?L = [''fa10.png'', ''fa2.png'', ''fa1.PNG'']"
    by code_simp
  have s: "sorted_by_key natural_sort_key [''fa10.png'', ''fa2.png'', ''fa1.PNG'']
             = Inr [''fa1.PNG'', ''fa2.png'', ''fa10.png'']"
    by code_simp
  have run: "create_spritesheet_from_dir ?L ''out/sheet.png'' (16, 32) None = Inr (Some ?out)"
    unfolding create_spritesheet_from_dir_def f s by (simp add: icon_name_def splitext_fa)
  obtain o1 where o1: "generate_sheet_atlas tile_size ''autotiles'' (Some (70, 40))
                         (Some [''wall'' @ [CHR 0x0A]]) = Some o1"
    by (simp add: generate_sheet_atlas_Some)
  have d1: "detect_format (all_lines_of [''wall'' @ [CHR 0x0A]]) = PlainLabel" by code_simp
  obtain o2 where o2: "generate_sheet_atlas tile_size ''animated-tiles'' (Some (70, 40))
                         (Some [''9. torch'' @ [CHR 0x0A]]) = Some o2"
    by (simp add: generate_sheet_atlas_Some)
  have d2: "detect_format (all_lines_of [''9. torch'' @ [CHR 0x0A]]) = RowLabel" by code_simp
  have t: "0 < tile_size" by (simp add: tile_size_def)
  have "all_in_canvas ?out"
    using records_within_canvas [of ?L "''out/sheet.png''" 16 32 None ?out] run by blast
  moreover have "all_in_canvas (pack_sheet ''out/rpg.png'' (32, 32)
                      [''armor/helm'', ''weapons/sword2'', ''weapons/sword10''])"
    using records_within_canvas [of _ "''out/rpg.png''" 32 32] example_categorized_run by blast
  moreover have "all_in_canvas o1"
    using records_within_canvas [of _ _ _ _ _ _ _ tile_size "[''wall'' @ [CHR 0x0A]]" "''autotiles''" 70 40 o1]
      t d1 o1 by blast
  moreover have "list_all (\<lambda>(name, x, y, w, h). x + w \<le> 70) (out_entries o2)"
    using records_within_canvas [of _ _ _ _ _ _ _ tile_size "[''9. torch'' @ [CHR 0x0A]]" "''animated-tiles''" 70 40 o2]
      t d2 o2 by simp
  ultimately show ?thesis unfolding o1 o2 by simp
qed

lemma grid_no_parse_no_records:
  assumes "list_all (\<lambda>l. re_items True re_grid_ref l = None) ls"
  shows "grid_ref_records ts ls = []"
  using assms by (induction ls) (simp_all add: grid_ref_records_def grid_ref_line_def)

text \<open>
  C4, as amended. A legacy sheet is skipped exactly when its image or its label file is
  missing. No check of divisibility is made: whatever the pixel size, \<open>cols\<close> and \<open>rows\<close>
  are the floor quotients of the width and the height by the tile size, and the sheet is
  copied and its atlas generated from them.
\<close>

theorem uneven_sheet_is_translated:
  "(generate_sheet_atlas ts sheet_name png txt = None \<longleftrightarrow> png = None \<or> txt = None)
   \<and> (\<exists>out. generate_sheet_atlas ts sheet_name (Some (sheet_w, sheet_h)) (Some f) = Some out
         \<and> out_sheet_w out = sheet_w \<and> out_sheet_h out = sheet_h
         \<and> out_entries out
             = legacy_records ts (sheet_w div ts) (sheet_h div ts) (all_lines_of f))"
proof (intro conjI)
  show "generate_sheet_atlas ts sheet_name png txt = None \<longleftrightarrow> png = None \<or> txt = None"
    by (cases png; cases "txt") (auto simp: generate_sheet_atlas_def Let_def)
  show "\<exists>out. generate_sheet_atlas ts sheet_name (Some (sheet_w, sheet_h)) (Some f) = Some out
         \<and> out_sheet_w out = sheet_w \<and> out_sheet_h out = sheet_h
         \<and> out_entries out
             = legacy_records ts (sheet_w div ts) (sheet_h div ts) (all_lines_of f)"
    unfolding generate_sheet_atlas_Some by simp
qed

text \<open>The claim as stated fails: a 70 by 40 sheet, neither dimension a multiple of 32, is
  not skipped; its atlas has the records of the one full row of two tiles.\<close>

theorem uneven_sheet_is_translated_counterexample:
  "(70 :: nat) mod tile_size = 6 \<and> (40 :: nat) mod tile_size = 8
   \<and> map_option out_entries
        (generate_sheet_atlas tile_size ''autotiles'' (Some (70, 40)) (Some [''wall'' @ [CHR 0x0A]]))
      = Some [(''wall [row 0, col 0]'', 0, 0, 32, 32), (''wall [row 0, col 1]'', 32, 0, 32, 32)]"
  by code_simp

theorem uneven_sheet_is_translated_witness:
  "generate_sheet_atlas tile_size ''autotiles'' (Some (70, 40)) (Some [''wall'' @ [CHR 0x0A]]) \<noteq> None
   \<and> generate_sheet_atlas tile_size ''autotiles'' None (Some [''wall'' @ [CHR 0x0A]]) = None
   \<and> (\<exists>out. generate_sheet_atlas tile_size ''autotiles'' (Some (70, 40))
                (Some [''wall'' @ [CHR 0x0A]]) = Some out
         \<and> out_sheet_w out = 70 \<and> out_sheet_h out = 40
         \<and> out_entries out
             = [(''wall [row 0, col 0]'', 0, 0, 32, 32), (''wall [row 0, col 1]'', 32, 0, 32, 32)])"
proof -
  have e: "legacy_records tile_size (70 div tile_size) (40 div tile_size)
             (all_lines_of [''wall'' @ [CHR 0x0A]])
           = [(''wall [row 0, col 0]'', 0, 0, 32, 32), (''wall [row 0, col 1]'', 32, 0, 32, 32)]"
    by code_simp
  show ?thesis
    using uneven_sheet_is_translated [of tile_size "''autotiles''" "Some (70, 40)"
        "Some [''wall'' @ [CHR 0x0A]]" 70 40 "[''wall'' @ [CHR 0x0A]]"]
      uneven_sheet_is_translated [of tile_size "''autotiles''" None
        "Some [''wall'' @ [CHR 0x0A]]" 70 40 "[''wall'' @ [CHR 0x0A]]"]
    unfolding e by simp
qed

text \<open>
  C10. The packer writes nothing when it collects no icon (both functions return before
  any file is written). The legacy translator, given both files, always writes an atlas;
  when no record was produced, as for a file classified GridRef none of whose lines the
  GridRef pattern matches, the header states \<^verbatim>\<open>Total sprites: 0\<close> and is followed by a
  single empty line.
\<close>

theorem empty_atlas_is_written:
  "(filter (\<lambda>f. endswith (lower f) ''.png'') listing = []
      \<longrightarrow> create_spritesheet_from_dir listing output_png icon_size name_fn = Inr None)
   \<and> (collect_categories (sort_key fst base) = Inr []
      \<longrightarrow> create_spritesheet_from_categorized_dirs base output_png icon_size = Inr None)
   \<and> (\<exists>out. generate_sheet_atlas ts sheet_name (Some (sheet_w, sheet_h)) (Some f) = Some out
         \<and> (out_entries out = [] \<longrightarrow>
              out_atlas out =
                ''# Sprite Sheet Atlas: 32rogues-'' @ sheet_name @ ''.png'' @ [CHR 0x0A]
                @ ''# Total sprites: 0'' @ [CHR 0x0A]
                @ ''# Sheet size: '' @ str_nat sheet_w @ ''x'' @ str_nat sheet_h @ [CHR 0x0A]
                @ ''# Icon size: '' @ str_nat ts @ ''x'' @ str_nat ts @ [CHR 0x0A]
                @ ''# Format: name'' @ [CHR 0x5C] @ ''tx'' @ [CHR 0x5C] @ ''ty'' @ [CHR 0x5C]
                @ ''twidth'' @ [CHR 0x5C] @ ''theight'' @ [CHR 0x0A]
                @ [CHR 0x0A])
         \<and> (detect_format (all_lines_of f) = GridRef
              \<and> list_all (\<lambda>l. re_items True re_grid_ref l = None) (all_lines_of f)
              \<longrightarrow> out_entries out = []))"
proof (intro conjI impI)
  assume "filter (\<lambda>f. endswith (lower f) ''.png'') listing = []"
  then show "create_spritesheet_from_dir listing output_png icon_size name_fn = Inr None"
    by (simp add: create_spritesheet_from_dir_def)
next
  assume "collect_categories (sort_key fst base) = Inr []"
  then show "create_spritesheet_from_categorized_dirs base output_png icon_size = Inr None"
    by (simp add: create_spritesheet_from_categorized_dirs_def)
next
  let ?es = "legacy_records ts (sheet_w div ts) (sheet_h div ts) (all_lines_of f)"
  let ?out = "\<lparr>out_sheet_w = sheet_w, out_sheet_h = sheet_h, out_entries = ?es,
           out_atlas = write_atlas (''32rogues-'' @ sheet_name @ ''.png'') (length ?es)
              sheet_w sheet_h ts ts ?es\<rparr>"
  have z: "str_nat 0 = ''0''" by code_simp
  have a: "out_entries ?out = [] \<longrightarrow>
              out_atlas ?out =
                ''# Sprite Sheet Atlas: 32rogues-'' @ sheet_name @ ''.png'' @ [CHR 0x0A]
                @ ''# Total sprites: 0'' @ [CHR 0x0A]
                @ ''# Sheet size: '' @ str_nat sheet_w @ ''x'' @ str_nat sheet_h @ [CHR 0x0A]
                @ ''# Icon size: '' @ str_nat ts @ ''x'' @ str_nat ts @ [CHR 0x0A]
                @ ''# Format: name'' @ [CHR 0x5C] @ ''tx'' @ [CHR 0x5C] @ ''ty'' @ [CHR 0x5C]
                @ ''twidth'' @ [CHR 0x5C] @ ''theight'' @ [CHR 0x0A]
                @ [CHR 0x0A]"
    by (simp add: write_atlas_def atlas_header_def z)
  have b: "detect_format (all_lines_of f) = GridRef
              \<and> list_all (\<lambda>l. re_items True re_grid_ref l = None) (all_lines_of f)
              \<longrightarrow> out_entries ?out = []"
    by (simp add: legacy_GridRef grid_no_parse_no_records)
  show "\<exists>out. generate_sheet_atlas ts sheet_name (Some (sheet_w, sheet_h)) (Some f) = Some out
         \<and> (out_entries out = [] \<longrightarrow>
              out_atlas out =
                ''# Sprite Sheet Atlas: 32rogues-'' @ sheet_name @ ''.png'' @ [CHR 0x0A]
                @ ''# Total sprites: 0'' @ [CHR 0x0A]
                @ ''# Sheet size: '' @ str_nat sheet_w @ ''x'' @ str_nat sheet_h @ [CHR 0x0A]
                @ ''# Icon size: '' @ str_nat ts @ ''x'' @ str_nat ts @ [CHR 0x0A]
                @ ''# Format: name'' @ [CHR 0x5C] @ ''tx'' @ [CHR 0x5C] @ ''ty'' @ [CHR 0x5C]
                @ ''twidth'' @ [CHR 0x5C] @ ''theight'' @ [CHR 0x0A]
                @ [CHR 0x0A])
         \<and> (detect_format (all_lines_of f) = GridRef
              \<and> list_all (\<lambda>l. re_items True re_grid_ref l = None) (all_lines_of f)
              \<longrightarrow> out_entries out = [])"
    unfolding generate_sheet_atlas_Some using a b by blast
qed

theorem empty_atlas_is_written_witness:
  "create_spritesheet_from_dir [''notes.txt'', ''README''] ''out/sheet.png'' (16, 16) None = Inr None
   \<and> create_spritesheet_from_categorized_dirs [(''docs'', Some [''notes.txt'']), (''README'', None)]
         ''out/sheet.png'' (16, 16) = Inr None
   \<and> (\<exists>out. generate_sheet_atlas tile_size ''items'' (Some (64, 32)) (Some [''1.abc'' @ [CHR 0x0A]])
              = Some out
         \<and> out_entries out = []
         \<and> out_atlas out =
             ''# Sprite Sheet Atlas: 32rogues-items.png'' @ [CHR 0x0A]
             @ ''# Total sprites: 0'' @ [CHR 0x0A]
             @ ''# Sheet size: 64x32'' @ [CHR 0x0A]
             @ ''# Icon size: 32x32'' @ [CHR 0x0A]
             @ ''# Format: name'' @ [CHR 0x5C] @ ''tx'' @ [CHR 0x5C] @ ''ty'' @ [CHR 0x5C]
             @ ''twidth'' @ [CHR 0x5C] @ ''theight'' @ [CHR 0x0A]
             @ [CHR 0x0A])"
proof -
  let ?L = "[''notes.txt'', ''README'']" and ?f = "[''1.abc'' @ [CHR 0x0A]]"
  have f: "filter (\<lambda>f. endswith (lower f) ''.png'') ?L = []" by code_simp
  have d: "detect_format (all_lines_of ?f) = GridRef" by code_simp
  have n: "list_all (\<lambda>l. re_items True re_grid_ref l = None) (all_lines_of ?f)" by code_simp
  have s: "str_nat 64 = ''64''" "str_nat 32 = ''32''" "str_nat tile_size = ''32''" by code_simp+
  note t = empty_atlas_is_written [of ?L "''out/sheet.png''" "(16, 16)" None
      "[(''docs'', Some [''notes.txt'']), (''README'', None)]" tile_size "''items''" 64 32 ?f]
  have p: "create_spritesheet_from_dir ?L ''out/sheet.png'' (16, 16) None = Inr None"
    using t f by blast
  have q: "create_spritesheet_from_categorized_dirs
             [(''docs'', Some [''notes.txt'']), (''README'', None)] ''out/sheet.png'' (16, 16)
           = Inr None"
    using t example_no_categories by blast
  obtain out where o: "generate_sheet_atlas tile_size ''items'' (Some (64, 32)) (Some ?f) = Some out"
    and e: "out_entries out = [] \<longrightarrow>
              out_atlas out =
                ''# Sprite Sheet Atlas: 32rogues-'' @ ''items'' @ ''.png'' @ [CHR 0x0A]
                @ ''# Total sprites: 0'' @ [CHR 0x0A]
                @ ''# Sheet size: '' @ str_nat 64 @ ''x'' @ str_nat 32 @ [CHR 0x0A]
                @ ''# Icon size: '' @ str_nat tile_size @ ''x'' @ str_nat tile_size @ [CHR 0x0A]
                @ ''# Format: name'' @ [CHR 0x5C] @ ''tx'' @ [CHR 0x5C] @ ''ty'' @ [CHR 0x5C]
                @ ''twidth'' @ [CHR 0x5C] @ ''theight'' @ [CHR 0x0A]
                @ [CHR 0x0A]"
    and g: "detect_format (all_lines_of ?f) = GridRef
              \<and> list_all (\<lambda>l. re_items True re_grid_ref l = None) (all_lines_of ?f)
              \<longrightarrow> out_entries out = []"
    using t by blast
  have z: "out_entries out = []" using g d n by blast
  then have "out_atlas out =
                ''# Sprite Sheet Atlas: 32rogues-'' @ ''items'' @ ''.png'' @ [CHR 0x0A]
                @ ''# Total sprites: 0'' @ [CHR 0x0A]
                @ ''# Sheet size: '' @ str_nat 64 @ ''x'' @ str_nat 32 @ [CHR 0x0A]
                @ ''# Icon size: '' @ str_nat tile_size @ ''x'' @ str_nat tile_size @ [CHR 0x0A]
                @ ''# Format: name'' @ [CHR 0x5C] @ ''tx'' @ [CHR 0x5C] @ ''ty'' @ [CHR 0x5C]
                @ ''twidth'' @ [CHR 0x5C] @ ''theight'' @ [CHR 0x0A]
                @ [CHR 0x0A]"
    using e by blast
  then show ?thesis unfolding o p q using z by (simp add: s)
qed

section \<open>The claims about the three label formats\<close>

text \<open>
  C3. In PlainLabel format, with \<open>rowsPerGroup = rows div max 1 labelCount\<close>, the records
  are, label by label in file order, those of the rows \<open>k * rowsPerGroup + r\<close> for
  \<open>r < rowsPerGroup\<close>, each row with one record per column \<open>c < cols\<close>, named
  \<^verbatim>\<open>{label} [row {r}, col {c}]\<close> and placed at \<open>x = c * tileSize\<close>,
  \<open>y = (k * rowsPerGroup + r) * tileSize\<close>. That makes \<open>rowsPerGroup * cols\<close> records per
  label; every record lies in the first \<open>labelCount * rowsPerGroup\<close> rows, which are at most
  \<open>rows\<close>, so the rows beyond them get no record.
\<close>

theorem plain_label_row_blocks:
  assumes "all_lines = all_lines_of f" and "detect_format all_lines = PlainLabel"
    and "rows_per_group = rows div max 1 (length all_lines)"
  shows "legacy_records ts cols rows all_lines =
           concat (map (\<lambda>(k, label).
              concat (map (\<lambda>r. map (\<lambda>c.
                 (label @ '' [row '' @ str_nat r @ '', col '' @ str_nat c @ '']'',
                  int c * int ts, (int k * int rows_per_group + int r) * int ts, int ts, int ts))
               [0..<cols]) [0..<rows_per_group]))
            (enumerate 0 all_lines))
       \<and> length (legacy_records ts cols rows all_lines)
           = length all_lines * (rows_per_group * cols)
       \<and> list_all (\<lambda>(name, x, y, w, h).
             0 \<le> y \<and> y + h \<le> int (length all_lines * rows_per_group) * int ts)
           (legacy_records ts cols rows all_lines)
       \<and> length all_lines * rows_per_group \<le> rows"
proof (intro conjI)
  let ?block = "\<lambda>(k, label).
              concat (map (\<lambda>r. map (\<lambda>c.
                 (label @ '' [row '' @ str_nat r @ '', col '' @ str_nat c @ '']'',
                  int c * int ts, (int k * int rows_per_group + int r) * int ts, int ts, int ts))
               [0..<cols]) [0..<rows_per_group])"
  have leg: "legacy_records ts cols rows all_lines = plain_label_records ts cols rows all_lines"
    using assms(2) by (rule legacy_PlainLabel)
  have "plain_label_records ts cols rows all_lines =
     concat (map (\<lambda>(k, line).
                concat (map (\<lambda>r. map (\<lambda>c.
                   (strip line @ '' [row '' @ str_nat r @ '', col '' @ str_nat c @ '']'',
                    int c * int ts, (int (k * rows_per_group) + int r) * int ts,
                    int ts, int ts))
                 [0..<cols]) [0..<rows_per_group]))
             (enumerate 0 all_lines))"
    unfolding assms(3) by (rule plain_label_records_closed)
  also have "\<dots> = concat (map ?block (enumerate 0 all_lines))"
  proof (rule arg_cong [where f = concat], rule map_cong [OF refl])
    fix p assume "p \<in> set (enumerate 0 all_lines)"
    moreover obtain k line where p: "p = (k, line)" by (cases p)
    ultimately have "snd p \<in> set all_lines" by (auto simp: in_set_enumerate_eq)
    then have "strip (snd p) = snd p" using all_lines_stripped assms(1) by blast
    then show "(case p of (k, line) \<Rightarrow>
                concat (map (\<lambda>r. map (\<lambda>c.
                   (strip line @ '' [row '' @ str_nat r @ '', col '' @ str_nat c @ '']'',
                    int c * int ts, (int (k * rows_per_group) + int r) * int ts,
                    int ts, int ts))
                 [0..<cols]) [0..<rows_per_group])) = ?block p"
      unfolding p by simp
  qed
  finally show closed: "legacy_records ts cols rows all_lines
      = concat (map ?block (enumerate 0 all_lines))"
    unfolding leg .
  have "length (?block p) = rows_per_group * cols" for p
    by (cases p) (simp add: length_concat_const [where m = cols])
  then have "length (concat (map ?block (enumerate 0 all_lines)))
      = length (enumerate 0 all_lines) * (rows_per_group * cols)"
    by (intro length_concat_const) blast
  then show "length (legacy_records ts cols rows all_lines)
           = length all_lines * (rows_per_group * cols)"
    unfolding closed by simp
  show "list_all (\<lambda>(name, x, y, w, h).
             0 \<le> y \<and> y + h \<le> int (length all_lines * rows_per_group) * int ts)
           (legacy_records ts cols rows all_lines)"
    unfolding leg list_all_iff
  proof
    fix e assume "e \<in> set (plain_label_records ts cols rows all_lines)"
    from plain_label_bounds [OF this]
    show "case e of (name, x, y, w, h) \<Rightarrow>
             0 \<le> y \<and> y + h \<le> int (length all_lines * rows_per_group) * int ts"
      unfolding assms(3) by (cases e) simp
  qed
  show "length all_lines * rows_per_group \<le> rows"
    unfolding assms(3) by (rule groups_fit)
qed

theorem plain_label_row_blocks_witness:
  "legacy_records 32 2 11 [''foo'', ''bar''] =
     [(''foo [row 0, col 0]'', 0, 0, 32, 32), (''foo [row 0, col 1]'', 32, 0, 32, 32),
      (''foo [row 1, col 0]'', 0, 32, 32, 32), (''foo [row 1, col 1]'', 32, 32, 32, 32),
      (''foo [row 2, col 0]'', 0, 64, 32, 32), (''foo [row 2, col 1]'', 32, 64, 32, 32),
      (''foo [row 3, col 0]'', 0, 96, 32, 32), (''foo [row 3, col 1]'', 32, 96, 32, 32),
      (''foo [row 4, col 0]'', 0, 128, 32, 32), (''foo [row 4, col 1]'', 32, 128, 32, 32),
      (''bar [row 0, col 0]'', 0, 160, 32, 32), (''bar [row 0, col 1]'', 32, 160, 32, 32),
      (''bar [row 1, col 0]'', 0, 192, 32, 32), (''bar [row 1, col 1]'', 32, 192, 32, 32),
      (''bar [row 2, col 0]'', 0, 224, 32, 32), (''bar [row 2, col 1]'', 32, 224, 32, 32),
      (''bar [row 3, col 0]'', 0, 256, 32, 32), (''bar [row 3, col 1]'', 32, 256, 32, 32),
      (''bar [row 4, col 0]'', 0, 288, 32, 32), (''bar [row 4, col 1]'', 32, 288, 32, 32)]
   \<and> length (legacy_records 32 2 11 [''foo'', ''bar'']) = 20
   \<and> list_all (\<lambda>(name, x, y, w, h). 0 \<le> y \<and> y + h \<le> 320)
        (legacy_records 32 2 11 [''foo'', ''bar''])"
proof -
  have a: "[''foo'', ''bar''] = all_lines_of [''foo'' @ [CHR 0x0A], [CHR 0x0A], ''  bar'' @ [CHR 0x0A]]"
    by code_simp
  have d: "detect_format [''foo'', ''bar''] = PlainLabel" by code_simp
  have g: "(5::nat) = 11 div max 1 (length [''foo'', ''bar''])" by code_simp
  have n: "str_nat 0 = ''0''" "str_nat 1 = ''1''" "str_nat 2 = ''2''" "str_nat 3 = ''3''"
    "str_nat 4 = ''4''" "str_nat (Suc 0) = ''1''"
    by code_simp+
  have u5: "[0..<5] = [0, 1, 2, 3, 4]" "[0..<2] = [0, 1]" by code_simp+
  from plain_label_row_blocks [OF a d g, of 32 2]
  show ?thesis unfolding u5 by (simp add: n enumerate_eq_zip)
qed

lemma py_int_snoc: "py_int (ds @ [d]) = 10 * py_int ds + digit_val d"
  by (simp add: py_int_def)

lemma digit_val_table: "k < 10 \<Longrightarrow> digit_val (''0123456789'' ! k) = int k"
proof -
  assume "k < 10"
  then have "k \<in> {0, 1, 2, 3, 4, 5, 6, 7, 8, 9}" by auto
  then show ?thesis by (auto simp: digit_val_def)
qed

lemma py_int_str_nat: "py_int (str_nat n) = int n"
proof (induction n rule: str_nat.induct)
  case (1 n)
  show ?case
  proof (cases "n < 10")
    case True
    then show ?thesis
      using digit_val_table [OF True] by (subst str_nat.simps) (simp add: py_int_def)
  next
    case False
    have m: "n mod 10 < 10" by simp
    have "py_int (str_nat n) = 10 * py_int (str_nat (n div 10)) + digit_val (''0123456789'' ! (n mod 10))"
      using False by (subst str_nat.simps) (simp add: py_int_snoc)
    also have "\<dots> = 10 * int (n div 10) + int (n mod 10)"
      using 1 [OF False] digit_val_table [OF m] by simp
    also have "\<dots> = int n" by (simp add: zdiv_int zmod_int)
    finally show ?thesis .
  qed
qed

lemma letter_index_table:
  "list_all (\<lambda>c. 0 \<le> py_ord c - py_ord CHR ''a'' \<and> py_ord c - py_ord CHR ''a'' < 26
               \<and> ''abcdefghijklmnopqrstuvwxyz'' ! nat (py_ord c - py_ord CHR ''a'') = c)
     ''abcdefghijklmnopqrstuvwxyz''"
  by code_simp

lemma letter_index:
  assumes "islower_az c"
  shows "0 \<le> py_ord c - py_ord CHR ''a'' \<and> py_ord c - py_ord CHR ''a'' < 26
       \<and> ''abcdefghijklmnopqrstuvwxyz'' ! nat (py_ord c - py_ord CHR ''a'') = c"
proof -
  have "c \<in> set ''abcdefghijklmnopqrstuvwxyz''" using assms by (simp only: islower_az_def)
  then show ?thesis using letter_index_table unfolding list_all_iff by blast
qed

lemma grid_ref_line_Some:
  assumes "re_items True re_grid_ref l = Some [ds, d1, [c], d2, ws, label]"
  shows "grid_ref_line ts l =
           [(strip label, (py_ord c - py_ord CHR ''a'') * int ts, (py_int ds - 1) * int ts,
             int ts, int ts)]"
  by (simp add: grid_ref_line_def assms Let_def)

lemma grid_ref_line_None:
  assumes "re_items True re_grid_ref l = None"
  shows "grid_ref_line ts l = []"
  by (simp add: grid_ref_line_def assms)

lemma label_of_clean:
  assumes "clean_line (p @ label)" and "label \<noteq> []" and "\<not> isspace (hd label)"
  shows "strip label = label"
proof -
  have "last label = last (p @ label)" using assms(2) by simp
  then have "\<not> isspace (last label)" using assms(1) by (simp add: clean_line_def)
  then show ?thesis using assms(2,3) by (simp add: strip_id)
qed

lemma grid_ref_shape_line:
  assumes cl: "clean_line l" and sh: "grid_ref_shape l ds c label"
  shows "grid_ref_line ts l =
           [(label, (py_ord c - py_ord CHR ''a'') * int ts, (py_int ds - 1) * int ts,
             int ts, int ts)]"
proof -
  obtain dot ws where l: "l = ds @ ''.'' @ [c] @ dot @ ws @ label" and ds: "ds \<noteq> []"
    and dig: "list_all isdigit ds" and c: "islower_az c" and dot: "dot = [] \<or> dot = ''.''"
    and ws: "ws \<noteq> []" "list_all isspace ws" and lab: "label \<noteq> []" "\<not> isspace (hd label)"
    using sh unfolding grid_ref_shape_def by blast
  have m: "re_items True re_grid_ref l = Some [ds, ''.'', [c], dot, ws, label]"
    unfolding grid_ref_match [OF cl] using l ds dig c dot ws lab by blast
  have "clean_line ((ds @ ''.'' @ [c] @ dot @ ws) @ label)" using cl l by simp
  then have "strip label = label" using lab by (rule label_of_clean)
  then show ?thesis using grid_ref_line_Some [OF m, of ts] by simp
qed

lemma grid_ref_no_shape_line:
  assumes cl: "clean_line l" and no: "\<nexists>ds c label. grid_ref_shape l ds c label"
  shows "grid_ref_line ts l = []"
proof (cases "re_items True re_grid_ref l")
  case None
  then show ?thesis by (rule grid_ref_line_None)
next
  case (Some gs)
  then obtain ds c label where "grid_ref_shape l ds c label"
    unfolding grid_ref_match [OF cl] grid_ref_shape_def by blast
  then show ?thesis using no by blast
qed

lemma row_label_line_Some:
  assumes "re_items True re_row_label l = Some [ds, d1, ws, label]"
  shows "row_label_line ts cols l =
           map (\<lambda>c. (strip label @ '' [frame '' @ str_nat c @ '']'',
                      int c * int ts, (py_int ds - 1) * int ts, int ts, int ts))
               [0..<cols]"
  by (simp add: row_label_line_def assms Let_def)

lemma row_label_line_None:
  assumes "re_items True re_row_label l = None"
  shows "row_label_line ts cols l = []"
  by (simp add: row_label_line_def assms)

lemma row_label_shape_line:
  assumes cl: "clean_line l" and sh: "row_label_shape l ds label"
  shows "row_label_line ts cols l =
           map (\<lambda>c. (label @ '' [frame '' @ str_nat c @ '']'',
                      int c * int ts, (py_int ds - 1) * int ts, int ts, int ts))
               [0..<cols]"
proof -
  obtain ws where l: "l = ds @ ''.'' @ ws @ label" and ds: "ds \<noteq> []"
    and dig: "list_all isdigit ds"
    and ws: "ws \<noteq> []" "list_all isspace ws" and lab: "label \<noteq> []" "\<not> isspace (hd label)"
    using sh unfolding row_label_shape_def by blast
  have m: "re_items True re_row_label l = Some [ds, ''.'', ws, label]"
    unfolding row_label_match [OF cl] using l ds dig ws lab by blast
  have "clean_line ((ds @ ''.'' @ ws) @ label)" using cl l by simp
  then have "strip label = label" using lab by (rule label_of_clean)
  then show ?thesis using row_label_line_Some [OF m, of ts cols] by simp
qed

lemma row_label_no_shape_line:
  assumes cl: "clean_line l" and no: "\<nexists>ds label. row_label_shape l ds label"
  shows "row_label_line ts cols l = []"
proof (cases "re_items True re_row_label l")
  case None
  then show ?thesis by (rule row_label_line_None)
next
  case (Some gs)
  then obtain ds label where "row_label_shape l ds label"
    unfolding row_label_match [OF cl] row_label_shape_def by blast
  then show ?thesis using no by blast
qed

lemma example_grid_ref_line:
  "clean_line ''3.b label''" "grid_ref_shape ''3.b label'' ''3'' CHR ''b'' ''label''"
proof -
  show "clean_line ''3.b label''" by code_simp
  have "''3.b label'' = ''3'' @ ''.'' @ [CHR ''b''] @ [] @ '' '' @ ''label''
      \<and> ''3'' \<noteq> [] \<and> list_all isdigit ''3'' \<and> islower_az CHR ''b'' \<and> ([] = [] \<or> [] = ''.'')
      \<and> '' '' \<noteq> [] \<and> list_all isspace '' '' \<and> ''label'' \<noteq> [] \<and> \<not> isspace (hd ''label'')"
    by code_simp
  then show "grid_ref_shape ''3.b label'' ''3'' CHR ''b'' ''label''"
    unfolding grid_ref_shape_def by blast
qed

lemma example_not_row_label:
  "clean_line ''2.walk''" "\<nexists>ds label. row_label_shape ''2.walk'' ds label"
proof -
  show cl: "clean_line ''2.walk''" by code_simp
  have "re_items True re_row_label ''2.walk'' = None" by code_simp
  then show "\<nexists>ds label. row_label_shape ''2.walk'' ds label"
    using row_label_match [OF cl] unfolding row_label_shape_def
    by (metis option.distinct(1))
qed

lemma example_row_label_line:
  "clean_line ''2. walk''" "row_label_shape ''2. walk'' ''2'' ''walk''"
proof -
  show "clean_line ''2. walk''" by code_simp
  have "''2. walk'' = ''2'' @ ''.'' @ '' '' @ ''walk''
      \<and> ''2'' \<noteq> [] \<and> list_all isdigit ''2''
      \<and> '' '' \<noteq> [] \<and> list_all isspace '' '' \<and> ''walk'' \<noteq> [] \<and> \<not> isspace (hd ''walk'')"
    by code_simp
  then show "row_label_shape ''2. walk'' ''2'' ''walk''"
    unfolding row_label_shape_def by blast
qed

text \<open>
  C7. In GridRef format a line of the shape digits, dot, lower-case letter, optional dot,
  whitespace, label text yields exactly one record: its name is the label text as it
  stands, \<open>x = col * tileSize\<close> with \<open>col\<close> the index of the letter in the alphabet
  (\<open>a\<close> is 0), \<open>y = (intPart - 1) * tileSize\<close> with \<open>intPart\<close> the decimal value of the
  digits, and \<open>w = h = tileSize\<close>. A line not of that shape yields no record, and the
  records of a file are those of its lines, in order. The lines are those the translator
  reads: stripped, without a newline inside.
\<close>

theorem grid_ref_line_record:
  assumes "clean_line l"
  shows "(grid_ref_shape l ds c label \<longrightarrow>
            grid_ref_line ts l =
              [(label, (py_ord c - py_ord CHR ''a'') * int ts, (py_int ds - 1) * int ts,
                int ts, int ts)]
          \<and> ''abcdefghijklmnopqrstuvwxyz'' ! nat (py_ord c - py_ord CHR ''a'') = c
          \<and> 0 \<le> py_ord c - py_ord CHR ''a'')
       \<and> ((\<nexists>ds c label. grid_ref_shape l ds c label) \<longrightarrow> grid_ref_line ts l = [])
       \<and> py_int (str_nat n) = int n
       \<and> grid_ref_records ts (ls @ [l] @ ls')
           = grid_ref_records ts ls @ grid_ref_line ts l @ grid_ref_records ts ls'"
proof (intro conjI impI)
  assume sh: "grid_ref_shape l ds c label"
  show "grid_ref_line ts l =
              [(label, (py_ord c - py_ord CHR ''a'') * int ts, (py_int ds - 1) * int ts,
                int ts, int ts)]"
    using assms sh by (rule grid_ref_shape_line)
  have "islower_az c" using sh unfolding grid_ref_shape_def by blast
  then show "''abcdefghijklmnopqrstuvwxyz'' ! nat (py_ord c - py_ord CHR ''a'') = c"
    and "0 \<le> py_ord c - py_ord CHR ''a''"
    using letter_index by blast+
next
  assume "\<nexists>ds c label. grid_ref_shape l ds c label"
  with assms show "grid_ref_line ts l = []" by (rule grid_ref_no_shape_line)
next
  show "py_int (str_nat n) = int n" by (rule py_int_str_nat)
  show "grid_ref_records ts (ls @ [l] @ ls')
           = grid_ref_records ts ls @ grid_ref_line ts l @ grid_ref_records ts ls'"
    by (simp add: grid_ref_records_def)
qed

theorem grid_ref_line_record_witness:
  "clean_line ''3.b label'' \<and> grid_ref_shape ''3.b label'' ''3'' CHR ''b'' ''label''
   \<and> grid_ref_line 32 ''3.b label'' = [(''label'', 32, 64, 32, 32)]
   \<and> clean_line ''3.blabel'' \<and> grid_ref_line 32 ''3.blabel'' = []
   \<and> grid_ref_records 32 [''3.blabel'', ''3.b label'', ''12.d. iron key'']
      = [(''label'', 32, 64, 32, 32), (''iron key'', 96, 352, 32, 32)]"
proof -
  note cl = example_grid_ref_line(1) and sh = example_grid_ref_line(2)
  have v: "py_ord CHR ''b'' - py_ord CHR ''a'' = 1" "py_int ''3'' = 3" by code_simp+
  have r: "grid_ref_line 32 ''3.b label'' = [(''label'', 32, 64, 32, 32)]"
    using grid_ref_line_record [OF cl, of "''3''" "CHR ''b''" "''label''" 32] sh
    by (simp add: v)
  have cl2: "clean_line ''3.blabel''" by code_simp
  have none: "re_items True re_grid_ref ''3.blabel'' = None" by code_simp
  have "\<nexists>ds c label. grid_ref_shape ''3.blabel'' ds c label"
    using grid_ref_match [OF cl2] none unfolding grid_ref_shape_def
    by (metis option.distinct(1))
  then have e: "grid_ref_line 32 ''3.blabel'' = []"
    using grid_ref_line_record [OF cl2, of _ _ _ 32] by blast
  have k: "grid_ref_line 32 ''12.d. iron key'' = [(''iron key'', 96, 352, 32, 32)]" by code_simp
  have "grid_ref_records 32 ([''3.blabel''] @ [''3.b label''] @ [''12.d. iron key''])
      = grid_ref_records 32 [''3.blabel''] @ grid_ref_line 32 ''3.b label''
        @ grid_ref_records 32 [''12.d. iron key'']"
    using grid_ref_line_record [OF cl] by blast
  then have "grid_ref_records 32 [''3.blabel'', ''3.b label'', ''12.d. iron key'']
      = [(''label'', 32, 64, 32, 32), (''iron key'', 96, 352, 32, 32)]"
    by (simp add: grid_ref_records_def r e k)
  then show ?thesis using cl sh r cl2 e by blast
qed

text \<open>
  C8. In RowLabel format a line of the shape digits, dot, whitespace, label text yields
  exactly \<open>cols\<close> records, one per column \<open>c\<close> from 0 to \<open>cols - 1\<close> in order, named
  \<^verbatim>\<open>{labelText} [frame {c}]\<close>, with \<open>x = c * tileSize\<close>, \<open>y = (intPart - 1) * tileSize\<close>
  and \<open>w = h = tileSize\<close>; a line not of that shape yields none.
\<close>

theorem row_label_line_records:
  assumes "clean_line l"
  shows "(row_label_shape l ds label \<longrightarrow>
            row_label_line ts cols l =
              map (\<lambda>c. (label @ '' [frame '' @ str_nat c @ '']'',
                         int c * int ts, (py_int ds - 1) * int ts, int ts, int ts))
                  [0..<cols]
          \<and> length (row_label_line ts cols l) = cols)
       \<and> ((\<nexists>ds label. row_label_shape l ds label) \<longrightarrow> row_label_line ts cols l = [])
       \<and> row_label_records ts cols (ls @ [l] @ ls')
           = row_label_records ts cols ls @ row_label_line ts cols l
             @ row_label_records ts cols ls'"
proof (intro conjI impI)
  assume sh: "row_label_shape l ds label"
  show r: "row_label_line ts cols l =
              map (\<lambda>c. (label @ '' [frame '' @ str_nat c @ '']'',
                         int c * int ts, (py_int ds - 1) * int ts, int ts, int ts))
                  [0..<cols]"
    using assms sh by (rule row_label_shape_line)
  show "length (row_label_line ts cols l) = cols" unfolding r by simp
next
  assume "\<nexists>ds label. row_label_shape l ds label"
  with assms show "row_label_line ts cols l = []" by (rule row_label_no_shape_line)
next
  show "row_label_records ts cols (ls @ [l] @ ls')
           = row_label_records ts cols ls @ row_label_line ts cols l
             @ row_label_records ts cols ls'"
    by (simp add: row_label_records_def)
qed

theorem row_label_line_records_witness:
  "clean_line ''2. walk'' \<and> row_label_shape ''2. walk'' ''2'' ''walk''
   \<and> row_label_line 16 4 ''2. walk'' =
       [(''walk [frame 0]'', 0, 16, 16, 16), (''walk [frame 1]'', 16, 16, 16, 16),
        (''walk [frame 2]'', 32, 16, 16, 16), (''walk [frame 3]'', 48, 16, 16, 16)]
   \<and> clean_line ''2.walk'' \<and> row_label_line 16 4 ''2.walk'' = []"
proof -
  note cl = example_row_label_line(1) and sh = example_row_label_line(2)
  have v: "py_int ''2'' = 2" "[0..<4] = [0, 1, 2, 3]"
    "str_nat 0 = ''0''" "str_nat 1 = ''1''" "str_nat 2 = ''2''" "str_nat 3 = ''3''"
    "str_nat (Suc 0) = ''1''"
    by code_simp+
  have "row_label_line 16 4 ''2. walk'' =
       [(''walk [frame 0]'', 0, 16, 16, 16), (''walk [frame 1]'', 16, 16, 16, 16),
        (''walk [frame 2]'', 32, 16, 16, 16), (''walk [frame 3]'', 48, 16, 16, 16)]"
    using row_label_line_records [OF cl, of "''2''" "''walk''" 16 4] sh
    by (simp add: v)
  moreover have "row_label_line 16 4 ''2.walk'' = []"
    using row_label_line_records [OF example_not_row_label(1), of _ _ 16 4]
      example_not_row_label(2) by blast
  ultimately show ?thesis using cl sh example_not_row_label(1) by blast
qed

lemma has_row_col_iff: "has_row_col ls \<longleftrightarrow> (\<exists>l \<in> set ls. grid_ref_prefix l)"
  unfolding has_row_col_def list_ex_iff grid_ref_prefix_def row_col_prefix_iff ..

lemma has_row_num_iff: "has_row_num ls \<longleftrightarrow> (\<exists>l \<in> set ls. row_label_prefix l)"
  unfolding has_row_num_def list_ex_iff row_label_prefix_def row_num_prefix_iff ..

lemma grid_ref_shape_prefix: "grid_ref_shape l ds c label \<Longrightarrow> grid_ref_prefix l"
  unfolding grid_ref_shape_def grid_ref_prefix_def by blast

lemma row_label_shape_prefix:
  assumes "row_label_shape l ds label"
  shows "row_label_prefix l"
proof -
  obtain ws where l: "l = ds @ ''.'' @ ws @ label" and ds: "ds \<noteq> []" "list_all isdigit ds"
    and ws: "ws \<noteq> []" "list_all isspace ws"
    using assms unfolding row_label_shape_def by blast
  obtain c wss where w: "ws = c # wss" using ws(1) by (cases ws) auto
  then have "isspace c" using ws(2) by simp
  moreover have "l = ds @ ''.'' @ [c] @ (wss @ label)" using l w by simp
  ultimately show ?thesis unfolding row_label_prefix_def using ds by blast
qed

lemma row_label_prefix_shape:
  assumes cl: "clean_line l" and p: "row_label_prefix l"
  shows "\<exists>ds label. row_label_shape l ds label"
proof -
  obtain ds c rest where l: "l = ds @ ''.'' @ [c] @ rest" and ds: "ds \<noteq> []" "list_all isdigit ds"
    and c: "isspace c"
    using p unfolding row_label_prefix_def by blast
  let ?r = "c # rest"
  have ne: "?r \<noteq> []" by simp
  have "last ?r = last l" unfolding l by simp
  then have ns: "\<not> isspace (last ?r)" using cl by (simp add: clean_line_def)
  have dne: "dropWhile isspace ?r \<noteq> []"
  proof
    assume "dropWhile isspace ?r = []"
    then have "\<forall>x \<in> set ?r. isspace x" by (simp only: dropWhile_eq_Nil_conv)
    then show False using ns last_in_set [OF ne] by blast
  qed
  have tne: "takeWhile isspace ?r \<noteq> []" using c by simp
  have "l = ds @ ''.'' @ takeWhile isspace ?r @ dropWhile isspace ?r"
    unfolding l by (simp only: takeWhile_dropWhile_id) simp
  moreover have "\<not> isspace (hd (dropWhile isspace ?r))" using hd_dropWhile [OF dne] .
  ultimately have "row_label_shape l ds (dropWhile isspace ?r)"
    unfolding row_label_shape_def using ds tne dne takeWhile_all [of isspace ?r] by blast
  then show ?thesis by blast
qed

text \<open>
  C1, as amended. The format of a label file is decided once for the whole file, in this
  order: GridRef if some line begins with digits, a dot and a lower-case letter, whatever
  follows (every line of the full GridRef shape does, but so does \<^verbatim>\<open>1.abc\<close>); otherwise
  RowLabel if some line begins with digits, a dot and a whitespace character, which for
  the stripped lines of a file is the same as having the RowLabel shape; otherwise
  PlainLabel. The records are those of the format so decided.
\<close>

theorem format_detection:
  "(detect_format ls = GridRef \<longleftrightarrow> (\<exists>l \<in> set ls. grid_ref_prefix l))
   \<and> (detect_format ls = RowLabel \<longleftrightarrow>
        \<not> (\<exists>l \<in> set ls. grid_ref_prefix l) \<and> (\<exists>l \<in> set ls. row_label_prefix l))
   \<and> (detect_format ls = PlainLabel \<longleftrightarrow>
        \<not> (\<exists>l \<in> set ls. grid_ref_prefix l) \<and> \<not> (\<exists>l \<in> set ls. row_label_prefix l))
   \<and> (l \<in> set ls \<and> grid_ref_shape l ds c label \<longrightarrow> detect_format ls = GridRef)
   \<and> (list_all clean_line ls \<longrightarrow>
        ((\<exists>l \<in> set ls. row_label_prefix l) \<longleftrightarrow> (\<exists>l \<in> set ls. \<exists>ds label. row_label_shape l ds label)))
   \<and> legacy_records ts cols rows ls =
        (case detect_format ls of
           GridRef \<Rightarrow> grid_ref_records ts ls
         | RowLabel \<Rightarrow> row_label_records ts cols ls
         | PlainLabel \<Rightarrow> plain_label_records ts cols rows ls)"
proof (intro conjI impI)
  show g: "detect_format ls = GridRef \<longleftrightarrow> (\<exists>l \<in> set ls. grid_ref_prefix l)"
    by (simp add: detect_format_def has_row_col_iff)
  show "detect_format ls = RowLabel \<longleftrightarrow>
        \<not> (\<exists>l \<in> set ls. grid_ref_prefix l) \<and> (\<exists>l \<in> set ls. row_label_prefix l)"
    by (simp add: detect_format_def has_row_col_iff has_row_num_iff)
  show "detect_format ls = PlainLabel \<longleftrightarrow>
        \<not> (\<exists>l \<in> set ls. grid_ref_prefix l) \<and> \<not> (\<exists>l \<in> set ls. row_label_prefix l)"
    by (simp add: detect_format_def has_row_col_iff has_row_num_iff)
  show "detect_format ls = GridRef" if "l \<in> set ls \<and> grid_ref_shape l ds c label"
    unfolding g using that grid_ref_shape_prefix by blast
  show "(\<exists>l \<in> set ls. row_label_prefix l) \<longleftrightarrow> (\<exists>l \<in> set ls. \<exists>ds label. row_label_shape l ds label)"
    if "list_all clean_line ls"
    using that row_label_prefix_shape row_label_shape_prefix unfolding list_all_iff by blast
  show "legacy_records ts cols rows ls =
        (case detect_format ls of
           GridRef \<Rightarrow> grid_ref_records ts ls
         | RowLabel \<Rightarrow> row_label_records ts cols ls
         | PlainLabel \<Rightarrow> plain_label_records ts cols rows ls)"
    by (simp add: legacy_records_def detect_format_def)
qed

text \<open>The claim as stated fails: in the file whose only line is \<^verbatim>\<open>1.abc\<close> no line has
  the GridRef shape nor the RowLabel shape, yet the file is classified GridRef (and yields
  no record) rather than PlainLabel.\<close>

theorem format_detection_counterexample:
  "detect_format [''1.abc''] = GridRef
   \<and> re_items True re_grid_ref ''1.abc'' = None
   \<and> re_items True re_row_label ''1.abc'' = None
   \<and> legacy_records 32 2 2 [''1.abc''] = []
   \<and> all_lines_of [''1.abc'' @ [CHR 0x0A]] = [''1.abc'']"
  by code_simp

theorem format_detection_witness:
  "detect_format [''cave wall'', ''3.b label''] = GridRef
   \<and> detect_format [''cave wall'', ''1.abc''] = GridRef
   \<and> detect_format [''cave wall'', ''2. walk''] = RowLabel
   \<and> detect_format [''cave wall'', ''floor''] = PlainLabel
   \<and> legacy_records 32 2 2 [''cave wall'', ''3.b label''] = [(''label'', 32, 64, 32, 32)]"
proof -
  note sh = example_grid_ref_line(2) and rs = example_row_label_line(2)
  have cl: "list_all clean_line [''cave wall'', ''2. walk'']" by code_simp
  have n1: "re_items False re_row_col ''cave wall'' = None"
    "re_items False re_row_col ''2. walk'' = None" "re_items False re_row_col ''floor'' = None"
    "re_items False re_row_num ''cave wall'' = None" "re_items False re_row_num ''floor'' = None"
    by code_simp+
  have np: "\<not> grid_ref_prefix ''cave wall''" "\<not> grid_ref_prefix ''2. walk''"
    "\<not> grid_ref_prefix ''floor''" "\<not> row_label_prefix ''cave wall''" "\<not> row_label_prefix ''floor''"
    using n1 row_col_prefix_iff row_num_prefix_iff
    unfolding grid_ref_prefix_def row_label_prefix_def by blast+
  have p1: "re_items False re_row_col ''1.abc'' \<noteq> None" by code_simp
  then have p: "grid_ref_prefix ''1.abc''"
    unfolding grid_ref_prefix_def row_col_prefix_iff .
  have a: "detect_format [''cave wall'', ''3.b label''] = GridRef"
    using format_detection [of "[''cave wall'', ''3.b label'']" "''3.b label''" "''3''" "CHR ''b''" "''label''"] sh
    by simp
  have b: "detect_format [''cave wall'', ''1.abc''] = GridRef"
    using format_detection [of "[''cave wall'', ''1.abc'']"] p by simp
  have "\<exists>l \<in> set [''cave wall'', ''2. walk'']. row_label_prefix l"
    using format_detection [of "[''cave wall'', ''2. walk'']"] cl rs by auto
  then have c: "detect_format [''cave wall'', ''2. walk''] = RowLabel"
    using format_detection [of "[''cave wall'', ''2. walk'']"] np by simp
  have d: "detect_format [''cave wall'', ''floor''] = PlainLabel"
    using format_detection [of "[''cave wall'', ''floor'']"] np by simp
  have g: "grid_ref_records 32 [''cave wall'', ''3.b label''] = [(''label'', 32, 64, 32, 32)]"
    by code_simp
  have "legacy_records 32 2 2 [''cave wall'', ''3.b label''] = [(''label'', 32, 64, 32, 32)]"
    using format_detection [of "[''cave wall'', ''3.b label'']" _ _ _ _ 32 2 2] a g by simp
  then show ?thesis using a b c d by blast
qed

section \<open>The natural sort key\<close>







































end
